theory Spec2Isabelle
  imports Complex_Main "HOL-Library.Sublist"
begin

section \<open>Python primitives used by the pipeline\<close>

text \<open>
  Python strings are modelled as \<open>string\<close>, read as sequences of code points below 256
  (one \<open>char\<close> per code point), so \<open>length\<close> is Python's \<open>len\<close> on such strings.
  Python integers are \<open>int\<close>. Exceptions are values of \<open>error\<close>.
\<close>

datatype error =
    TypeError
  | OverflowError
  | ValueError string
  | ServiceError string

text \<open>
  \<open>str.isspace\<close> on one code point below 256: the characters that \<open>str.strip()\<close>
  removes and that the regular-expression class \<open>\s\<close> matches.
\<close>

definition py_isspace :: "char \<Rightarrow> bool" where
  "py_isspace c =
     (let n = (of_char c :: nat)
      in (9 \<le> n \<and> n \<le> 13) \<or> (28 \<le> n \<and> n \<le> 32) \<or> n = 133 \<or> n = 160)"

definition py_strip :: "string \<Rightarrow> string" where
  "py_strip s = rev (dropWhile py_isspace (rev (dropWhile py_isspace s)))"

text \<open>\<open>sep.join(parts)\<close>.\<close>

fun py_join :: "string \<Rightarrow> string list \<Rightarrow> string" where
  "py_join sep [] = []"
| "py_join sep [x] = x"
| "py_join sep (x # y # ys) = x @ sep @ py_join sep (y # ys)"

text \<open>
  \<open>text.split(sep)\<close> for a non-empty separator: the text is scanned from the left, every
  occurrence of \<open>sep\<close> found ends the current piece and the scan resumes after it.
  The first argument is the piece read so far.
\<close>

function py_split_from :: "string \<Rightarrow> string \<Rightarrow> string \<Rightarrow> string list" where
  "py_split_from cur sep [] = [cur]"
| "py_split_from cur sep (c # cs) =
     (if sep \<noteq> [] \<and> prefix sep (c # cs)
      then cur # py_split_from [] sep (drop (length sep) (c # cs))
      else py_split_from (cur @ [c]) sep cs)"
  by pat_completeness auto
termination
  by (relation "measure (\<lambda>(cur, sep, t). length t)") (auto simp: Suc_le_eq)

definition py_split :: "string \<Rightarrow> string \<Rightarrow> string list" where
  "py_split sep t = py_split_from [] sep t"

text \<open>
  A slice \<open>xs[a:b]\<close> with Python's treatment of negative and out-of-range bounds.
\<close>

definition py_slice_bound :: "nat \<Rightarrow> int \<Rightarrow> nat" where
  "py_slice_bound n i = (if i < 0 then nat (max (i + int n) 0) else min (nat i) n)"

definition py_slice :: "'a list \<Rightarrow> int \<Rightarrow> int \<Rightarrow> 'a list" where
  "py_slice xs a b =
     drop (py_slice_bound (length xs) a) (take (py_slice_bound (length xs) b) xs)"

text \<open>
  The values of \<open>range(start, stop, step)\<close> for a non-zero step (a zero step raises
  \<open>ValueError\<close>, which the callers below model themselves).
\<close>

function py_range :: "int \<Rightarrow> int \<Rightarrow> int \<Rightarrow> int list" where
  "py_range start stop step =
     (if 0 < step \<and> start < stop then start # py_range (start + step) stop step
      else if step < 0 \<and> stop < start then start # py_range (start + step) stop step
      else [])"
  by pat_completeness auto
termination
  by (relation "measure (\<lambda>(start, stop, step). nat (if 0 < step then stop - start else start - stop))")
     auto

section \<open>utils/validators.py\<close>

subsection \<open>extract_metadata_from_filename\<close>

text \<open>
  \<open>re.search(r"(w1|w2|...)", s, re.IGNORECASE)\<close> for literal lower-case words: some word
  occurs in \<open>s\<close> when letter case is ignored.
\<close>

definition ascii_lower :: "char \<Rightarrow> char" where
  "ascii_lower c =
     (case map_of (zip ''ABCDEFGHIJKLMNOPQRSTUVWXYZ'' ''abcdefghijklmnopqrstuvwxyz'') c of
        Some l \<Rightarrow> l
      | None \<Rightarrow> c)"

fun contains :: "string \<Rightarrow> string \<Rightarrow> bool" where
  "contains w [] = (w = [])"
| "contains w (c # cs) = (prefix w (c # cs) \<or> contains w cs)"

definition search_words_ignorecase :: "string list \<Rightarrow> string \<Rightarrow> bool" where
  "search_words_ignorecase ws s = list_ex (\<lambda>w. contains w (map ascii_lower s)) ws"

text \<open>
  \<open>re.search\<close> for a pattern that is a fixed sequence of one-character classes
  (\<open>\d\<close> or a literal): the leftmost match, if any.
\<close>

datatype char_class = Digit | Lit char

definition is_digit :: "char \<Rightarrow> bool" where
  "is_digit c = (c \<in> set ''0123456789'')"

fun class_matches :: "char_class \<Rightarrow> char \<Rightarrow> bool" where
  "class_matches Digit c = is_digit c"
| "class_matches (Lit l) c = (c = l)"

fun match_here :: "char_class list \<Rightarrow> string \<Rightarrow> bool" where
  "match_here [] s = True"
| "match_here (p # ps) [] = False"
| "match_here (p # ps) (c # cs) = (class_matches p c \<and> match_here ps cs)"

fun re_search :: "char_class list \<Rightarrow> string \<Rightarrow> string option" where
  "re_search pat [] = (if pat = [] then Some [] else None)"
| "re_search pat (c # cs) =
     (if match_here pat (c # cs) then Some (take (length pat) (c # cs)) else re_search pat cs)"

definition full_date_pattern :: "char_class list" where
  "full_date_pattern =
     [Digit, Digit, Digit, Digit, Lit CHR ''-'', Digit, Digit, Lit CHR ''-'', Digit, Digit]"

definition year_pattern :: "char_class list" where
  "year_pattern = [Digit, Digit, Digit, Digit]"

record filename_metadata =
  document_type :: "string option"
  sector :: "string option"
  date :: "string option"

definition extract_metadata_from_filename :: "string \<Rightarrow> filename_metadata" where
  "extract_metadata_from_filename filename =
     \<lparr> document_type =
         (if search_words_ignorecase [''treaty'', ''agreement'', ''convention''] filename
          then Some ''treaty''
          else if search_words_ignorecase [''policy'', ''strategy'', ''framework''] filename
          then Some ''policy''
          else if search_words_ignorecase [''feasibility'', ''study'', ''analysis''] filename
          then Some ''study''
          else None),
       sector =
         (if search_words_ignorecase [''mineral'', ''mining'', ''extractive''] filename
          then Some ''minerals''
          else if search_words_ignorecase [''energy'', ''power'', ''electricity'', ''renewable''] filename
          then Some ''energy''
          else if search_words_ignorecase [''agriculture'', ''agri'', ''farming''] filename
          then Some ''agriculture''
          else None),
       date =
         (case re_search full_date_pattern filename of
            Some d \<Rightarrow> Some d
          | None \<Rightarrow> re_search year_pattern filename) \<rparr>"

subsection \<open>sanitize_text\<close>

text \<open>The class \<open>[\x00-\x08\x0B-\x0C\x0E-\x1F\x7F]\<close> removed by the first substitution.\<close>

definition is_removed_control :: "char \<Rightarrow> bool" where
  "is_removed_control c =
     (let n = (of_char c :: nat)
      in n \<le> 8 \<or> n = 11 \<or> n = 12 \<or> (14 \<le> n \<and> n \<le> 31) \<or> n = 127)"

definition is_hspace :: "char \<Rightarrow> bool" where
  "is_hspace c = (c = CHR '' '' \<or> c = CHR 0x09)"

text \<open>\<open>re.sub(r"[ \t]+", " ", text)\<close>: every maximal run of spaces and tabs becomes one space.\<close>

function collapse_hspace :: "string \<Rightarrow> string" where
  "collapse_hspace [] = []"
| "collapse_hspace (c # cs) =
     (if is_hspace c then CHR '' '' # collapse_hspace (dropWhile is_hspace cs)
      else c # collapse_hspace cs)"
  by pat_completeness auto
termination
  by (relation "measure length") (auto simp: less_Suc_eq_le length_dropWhile_le)

text \<open>
  \<open>re.sub(r"\n{3,}", "\n\n", text)\<close>: a maximal run of three or more newlines becomes two
  newlines; shorter runs stay.
\<close>

function collapse_newlines :: "string \<Rightarrow> string" where
  "collapse_newlines [] = []"
| "collapse_newlines (c # cs) =
     (if c = CHR 0x0A
      then (let run = c # takeWhile (\<lambda>d. d = CHR 0x0A) cs
            in (if 3 \<le> length run then [CHR 0x0A, CHR 0x0A] else run)
               @ collapse_newlines (dropWhile (\<lambda>d. d = CHR 0x0A) cs))
      else c # collapse_newlines cs)"
  by pat_completeness auto
termination
  by (relation "measure length") (auto simp: less_Suc_eq_le length_dropWhile_le)

definition sanitize_text :: "string \<Rightarrow> string" where
  "sanitize_text text =
     (let t1 = filter (\<lambda>c. \<not> is_removed_control c) text;
          t2 = collapse_hspace t1;
          t3 = collapse_newlines t2;
          lines = map py_strip (py_split [CHR 0x0A] t3)
      in py_strip (py_join [CHR 0x0A] lines))"

section \<open>ingestion/chunker.py\<close>

subsection \<open>FixedSizeChunker\<close>

text \<open>
  The six sentence-ending patterns tried in order: a terminator followed by a space or a
  newline. All are literal two-character strings.
\<close>

definition sentence_end_patterns :: "string list" where
  "sentence_end_patterns =
     [''. '', [CHR ''.'', CHR 0x0A], ''! '', [CHR ''!'', CHR 0x0A], ''? '', [CHR ''?'', CHR 0x0A]]"

text \<open>
  \<open>re.finditer(pattern, s)\<close> for a literal pattern: the end offsets of the non-overlapping
  matches, from the left. The second argument is the offset of the text still to scan.
\<close>

function finditer_ends :: "string \<Rightarrow> nat \<Rightarrow> string \<Rightarrow> nat list" where
  "finditer_ends pat i [] = []"
| "finditer_ends pat i (c # cs) =
     (if pat \<noteq> [] \<and> prefix pat (c # cs)
      then (i + length pat) # finditer_ends pat (i + length pat) (drop (length pat) (c # cs))
      else finditer_ends pat (Suc i) cs)"
  by pat_completeness auto
termination
  by (relation "measure (\<lambda>(pat, i, t). length t)") (auto simp: Suc_le_eq)

text \<open>
  The loop over the patterns: the first pattern that matches anywhere decides, and its
  last match is taken (\<open>matches[-1].end()\<close>).
\<close>

fun last_sentence_end :: "string list \<Rightarrow> string \<Rightarrow> nat option" where
  "last_sentence_end [] s = None"
| "last_sentence_end (p # ps) s =
     (case finditer_ends p 0 s of
        [] \<Rightarrow> last_sentence_end ps s
      | e # es \<Rightarrow> Some (last (e # es)))"

text \<open>
  \<open>int(chunk_size * 0.2)\<close> is a floating-point product: the integer is converted to the
  nearest double, multiplied by the double nearest to 0.2 (which is
  \<open>3602879701896397 / 2^54\<close>), the product is rounded to the nearest double, and
  \<open>int\<close> truncates it towards zero. A double has 53 significant bits and rounding is to
  nearest, ties to even; a conversion that reaches \<open>2^1024\<close> raises \<open>OverflowError\<close>.
  The definitions below compute this on integers (products of this size are far from
  the subnormal range).
\<close>

function bit_length :: "nat \<Rightarrow> nat" where
  "bit_length n = (if n = 0 then 0 else Suc (bit_length (n div 2)))"
  by pat_completeness auto
termination
  by (relation "measure id") auto

declare bit_length.simps [simp del]

text \<open>\<open>N / 2^s\<close> rounded to the nearest integer, ties to the even one.\<close>

definition round_half_even :: "nat \<Rightarrow> nat \<Rightarrow> nat" where
  "round_half_even N s =
     (if N mod 2 ^ s > 2 ^ (s - 1) \<or> (N mod 2 ^ s = 2 ^ (s - 1) \<and> odd (N div 2 ^ s))
      then N div 2 ^ s + 1
      else N div 2 ^ s)"

text \<open>A natural number rounded to 53 significant bits.\<close>

definition round53 :: "nat \<Rightarrow> nat" where
  "round53 N =
     (if bit_length N \<le> 53 then N
      else round_half_even N (bit_length N - 53) * 2 ^ (bit_length N - 53))"

definition int_fifth :: "int \<Rightarrow> error + int" where
  "int_fifth n =
     (if round53 (nat \<bar>n\<bar>) \<ge> 2 ^ 1024 then Inl OverflowError
      else Inr (sgn n * int (round53 (round53 (nat \<bar>n\<bar>) * 3602879701896397) div 2 ^ 54)))"

text \<open>
  The right edge of the window that starts at \<open>start\<close>, after the snap to a sentence end
  (or the exception of the floating-point product).
\<close>

definition window_end :: "int \<Rightarrow> string \<Rightarrow> int \<Rightarrow> error + int" where
  "window_end chunk_size text start =
     (let stop = start + chunk_size
      in if stop < int (length text)
         then (case int_fifth chunk_size of
                 Inl e \<Rightarrow> Inl e
               | Inr fifth \<Rightarrow>
                   (let search_start = stop - fifth;
                        search_text = py_slice text search_start (stop + 50)
                    in case last_sentence_end sentence_end_patterns search_text of
                         None \<Rightarrow> Inr stop
                       | Some m \<Rightarrow> Inr (search_start + int m)))
         else Inr stop)"

text \<open>
  The \<open>while start < text_length\<close> loop. The progress test of the source,
  \<open>if start <= chunks[-1] if chunks else 0:\<close>, is the conditional expression
  \<open>(start <= chunks[-1]) if chunks else 0\<close>: with a chunk in the list it compares an
  integer with a string, which raises \<open>TypeError\<close>; with no chunk it is \<open>0\<close>, so
  \<open>start = end\<close> is never executed. A loop that does not return has the value \<open>None\<close>.
\<close>

definition window_chunks :: "string \<Rightarrow> int \<Rightarrow> int \<Rightarrow> string list \<Rightarrow> string list" where
  "window_chunks text start stop chunks =
     (if py_strip (py_slice text start stop) \<noteq> []
      then chunks @ [py_strip (py_slice text start stop)]
      else chunks)"

partial_function (option) fixed_size_loop ::
  "int \<Rightarrow> int \<Rightarrow> string \<Rightarrow> int \<Rightarrow> string list \<Rightarrow> (error + string list) option" where
  "fixed_size_loop chunk_size chunk_overlap text start chunks =
     (if start < int (length text)
      then (case window_end chunk_size text start of
              Inl e \<Rightarrow> Some (Inl e)
            | Inr stop \<Rightarrow>
                (if window_chunks text start stop chunks \<noteq> []
                 then Some (Inl TypeError)
                 else fixed_size_loop chunk_size chunk_overlap text
                        (stop - chunk_overlap)
                        (window_chunks text start stop chunks)))
      else Some (Inr chunks))"

definition FixedSizeChunker_chunk ::
  "int \<Rightarrow> int \<Rightarrow> string \<Rightarrow> (error + string list) option" where
  "FixedSizeChunker_chunk chunk_size chunk_overlap text =
     (if py_strip text = [] then Some (Inr [])
      else fixed_size_loop chunk_size chunk_overlap text 0 [])"

subsection \<open>SemanticChunker\<close>

definition is_sentence_end :: "char \<Rightarrow> bool" where
  "is_sentence_end c = (c \<in> set ''.!?'')"

definition is_ascii_upper :: "char \<Rightarrow> bool" where
  "is_ascii_upper c = (c \<in> set ''ABCDEFGHIJKLMNOPQRSTUVWXYZ'')"

text \<open>
  \<open>re.split(r'(?<=[.!?])\s+(?=[A-Z])', text)\<close>: a match starts right after a sentence
  terminator, takes the whole following run of whitespace, and needs a capital letter
  after the run. The first argument is the piece read since the last match.
\<close>

function split_at_boundaries :: "string \<Rightarrow> string \<Rightarrow> string list" where
  "split_at_boundaries cur [] = [cur]"
| "split_at_boundaries cur (c # cs) =
     (if cur \<noteq> [] \<and> is_sentence_end (last cur) \<and> py_isspace c
         \<and> (case dropWhile py_isspace cs of [] \<Rightarrow> False | d # ds \<Rightarrow> is_ascii_upper d)
      then cur # split_at_boundaries [] (dropWhile py_isspace cs)
      else split_at_boundaries (cur @ [c]) cs)"
  by pat_completeness auto
termination
  by (relation "measure (\<lambda>(cur, t). length t)") (auto simp: less_Suc_eq_le length_dropWhile_le)

definition split_sentences :: "string \<Rightarrow> string list" where
  "split_sentences text =
     filter (\<lambda>s. s \<noteq> []) (map py_strip (split_at_boundaries [] text))"

text \<open>
  The \<open>for sentence in sentences\<close> loop with its state \<open>chunks\<close>, \<open>current_chunk\<close>,
  \<open>current_size\<close>, followed by the emission of the remaining chunk.
\<close>

fun semantic_loop ::
  "int \<Rightarrow> int \<Rightarrow> string list \<Rightarrow> string list \<Rightarrow> string list \<Rightarrow> int \<Rightarrow> string list" where
  "semantic_loop max_chunk_size min_chunk_size [] chunks current_chunk current_size =
     (if current_chunk \<noteq> [] \<and> py_strip (py_join '' '' current_chunk) \<noteq> []
      then chunks @ [py_strip (py_join '' '' current_chunk)]
      else chunks)"
| "semantic_loop max_chunk_size min_chunk_size (sentence # rest) chunks current_chunk current_size =
     (if current_size + int (length sentence) > max_chunk_size \<and> current_chunk \<noteq> []
         \<and> int (length (py_strip (py_join '' '' current_chunk))) \<ge> min_chunk_size
      then semantic_loop max_chunk_size min_chunk_size rest
             (chunks @ [py_strip (py_join '' '' current_chunk)]) [sentence] (int (length sentence))
      else semantic_loop max_chunk_size min_chunk_size rest
             chunks (current_chunk @ [sentence]) (current_size + int (length sentence)))"

definition SemanticChunker_chunk :: "int \<Rightarrow> int \<Rightarrow> string \<Rightarrow> string list" where
  "SemanticChunker_chunk max_chunk_size min_chunk_size text =
     (if py_strip text = [] then []
      else semantic_loop max_chunk_size min_chunk_size (split_sentences text) [] [] 0)"

subsection \<open>RecursiveChunker\<close>

definition default_separators :: "string list" where
  "default_separators = [[CHR 0x0A, CHR 0x0A], [CHR 0x0A], ''. '', '' '', []]"

text \<open>The constructor's \<open>separators or [...]\<close>: no list and the empty list give the default.\<close>

definition separators_or_default :: "string list option \<Rightarrow> string list" where
  "separators_or_default separators =
     (case separators of
        None \<Rightarrow> default_separators
      | Some [] \<Rightarrow> default_separators
      | Some (s # ss) \<Rightarrow> s # ss)"

text \<open>
  The merge loop over the splits. The result lists, in order, every \<open>chunk_text\<close> the
  loop saves (inside the loop and after it).
\<close>

fun merge_splits :: "int \<Rightarrow> string \<Rightarrow> string list \<Rightarrow> string list \<Rightarrow> int \<Rightarrow> string list" where
  "merge_splits chunk_size separator [] current_chunk current_size =
     (if current_chunk \<noteq> [] then [py_join separator current_chunk] else [])"
| "merge_splits chunk_size separator (split # rest) current_chunk current_size =
     (if current_size + int (length split) \<le> chunk_size
      then merge_splits chunk_size separator rest (current_chunk @ [split])
             (current_size + int (length split) + int (length separator))
      else (if current_chunk \<noteq> [] then [py_join separator current_chunk] else [])
           @ merge_splits chunk_size separator rest [split] (int (length split)))"

text \<open>
  \<open>_recursive_split\<close>: each saved \<open>chunk_text\<close> that is still too long is split again
  with the remaining separators, the others are kept; the chunks are stripped and the
  empty ones dropped.
\<close>

fun recursive_split :: "int \<Rightarrow> string list \<Rightarrow> string \<Rightarrow> string list" where
  "recursive_split chunk_size [] text = (if py_strip text \<noteq> [] then [text] else [])"
| "recursive_split chunk_size (separator # remaining_separators) text =
     filter (\<lambda>c. c \<noteq> [])
       (map py_strip
         (concat
           (map (\<lambda>chunk_text.
                   if int (length chunk_text) > chunk_size \<and> remaining_separators \<noteq> []
                   then recursive_split chunk_size remaining_separators chunk_text
                   else [chunk_text])
             (merge_splits chunk_size separator
               (if separator \<noteq> [] then py_split separator text else map (\<lambda>c. [c]) text)
               [] 0))))"

definition RecursiveChunker_chunk :: "int \<Rightarrow> string list \<Rightarrow> string \<Rightarrow> string list" where
  "RecursiveChunker_chunk chunk_size separators text =
     (if py_strip text = [] then [] else recursive_split chunk_size separators text)"

section \<open>models/embeddings.py\<close>

text \<open>
  An embedding is a list of numbers. The embedding service is external: a call takes the
  state of the service and the prompt and gives either an exception or the embedding
  returned, and the next state of the service.
\<close>

type_synonym vector = "real list"

type_synonym 'w embedding_service = "'w \<Rightarrow> string \<Rightarrow> (error + vector) \<times> 'w"

definition dimension :: nat where
  "dimension = 768"

text \<open>
  \<open>embed_text\<close>: the request to the service. A returned embedding of another length is
  only logged; an exception is logged and raised again.
\<close>

definition embed_text :: "'w embedding_service \<Rightarrow> 'w \<Rightarrow> string \<Rightarrow> (error + vector) \<times> 'w" where
  "embed_text service w text = service w text"

text \<open>The inner loop \<open>for text in batch\<close>, appending to \<open>embeddings\<close>.\<close>

fun embed_items ::
  "'w embedding_service \<Rightarrow> 'w \<Rightarrow> string list \<Rightarrow> vector list \<Rightarrow> vector list \<times> 'w" where
  "embed_items service w [] embeddings = (embeddings, w)"
| "embed_items service w (text # batch) embeddings =
     (case embed_text service w text of
        (Inr embedding, w') \<Rightarrow> embed_items service w' batch (embeddings @ [embedding])
      | (Inl e, w') \<Rightarrow> embed_items service w' batch (embeddings @ [replicate dimension 0]))"

text \<open>The outer loop \<open>for i in range(0, total, batch_size)\<close>.\<close>

fun embed_batches ::
  "'w embedding_service \<Rightarrow> 'w \<Rightarrow> string list \<Rightarrow> int \<Rightarrow> int list \<Rightarrow> vector list
     \<Rightarrow> vector list \<times> 'w" where
  "embed_batches service w texts batch_size [] embeddings = (embeddings, w)"
| "embed_batches service w texts batch_size (i # rest) embeddings =
     (case embed_items service w (py_slice texts i (i + batch_size)) embeddings of
        (embeddings', w') \<Rightarrow> embed_batches service w' texts batch_size rest embeddings')"

definition embed_batch ::
  "'w embedding_service \<Rightarrow> 'w \<Rightarrow> string list \<Rightarrow> int \<Rightarrow> (error + vector list) \<times> 'w" where
  "embed_batch service w texts batch_size =
     (if batch_size = 0 then (Inl (ValueError ''range() arg 3 must not be zero''), w)
      else (case embed_batches service w texts batch_size
                   (py_range 0 (int (length texts)) batch_size) [] of
              (embeddings, w') \<Rightarrow> (Inr embeddings, w')))"

section \<open>knowledge/vector_store.py\<close>

text \<open>
  An entry sent to the index is the triple of id, values and metadata; a request is the
  list of entries with the namespace. The index service is external: its answer to a
  request, given the requests it received before, is the acknowledged \<open>upserted_count\<close>
  or an exception. The requests sent so far stand for the state of the external index.
\<close>

type_synonym ('v, 'm) entry = "string \<times> 'v \<times> 'm"

type_synonym ('v, 'm) request = "('v, 'm) entry list \<times> string"

type_synonym ('v, 'm) index_service =
  "('v, 'm) request list \<Rightarrow> ('v, 'm) request \<Rightarrow> error + int"

record vector_store =
  index_name :: string
  index :: "string option"

definition upsert ::
  "('v, 'm) index_service \<Rightarrow> vector_store \<Rightarrow> ('v, 'm) request list
     \<Rightarrow> 'v list \<Rightarrow> string list \<Rightarrow> 'm list \<Rightarrow> string
     \<Rightarrow> (error + int) \<times> ('v, 'm) request list" where
  "upsert service store sent vectors ids metadata namespace =
     (if index store = None
      then (Inl (ValueError ''Index not initialized. Call create_index() first.''), sent)
      else if length vectors \<noteq> length ids \<or> length vectors \<noteq> length metadata
      then (Inl (ValueError ''vectors, ids, and metadata must have same length''), sent)
      else (service sent (zip ids (zip vectors metadata), namespace),
            sent @ [(zip ids (zip vectors metadata), namespace)]))"

text \<open>The loop of \<open>upsert_batch\<close> over \<open>range(0, total, batch_size)\<close>.\<close>

fun upsert_batches ::
  "('v, 'm) index_service \<Rightarrow> vector_store \<Rightarrow> 'v list \<Rightarrow> string list \<Rightarrow> 'm list
     \<Rightarrow> int \<Rightarrow> string \<Rightarrow> int list \<Rightarrow> int \<Rightarrow> ('v, 'm) request list
     \<Rightarrow> (error + int) \<times> ('v, 'm) request list" where
  "upsert_batches service store vectors ids metadata batch_size namespace [] total_upserted sent =
     (Inr total_upserted, sent)"
| "upsert_batches service store vectors ids metadata batch_size namespace (i # rest)
     total_upserted sent =
     (case upsert service store sent
             (py_slice vectors i (i + batch_size))
             (py_slice ids i (i + batch_size))
             (py_slice metadata i (i + batch_size)) namespace of
        (Inl e, sent') \<Rightarrow> (Inl e, sent')
      | (Inr upserted_count, sent') \<Rightarrow>
          upsert_batches service store vectors ids metadata batch_size namespace rest
            (total_upserted + upserted_count) sent')"

definition upsert_batch ::
  "('v, 'm) index_service \<Rightarrow> vector_store \<Rightarrow> ('v, 'm) request list
     \<Rightarrow> 'v list \<Rightarrow> string list \<Rightarrow> 'm list \<Rightarrow> int \<Rightarrow> string
     \<Rightarrow> (error + int) \<times> ('v, 'm) request list" where
  "upsert_batch service store sent vectors ids metadata batch_size namespace =
     (if batch_size = 0 then (Inl (ValueError ''range() arg 3 must not be zero''), sent)
      else upsert_batches service store vectors ids metadata batch_size namespace
             (py_range 0 (int (length vectors)) batch_size) 0 sent)"

section \<open>knowledge/knowledge_base.py\<close>

text \<open>
  Metadata values are Python objects; the ones the pipeline stores are \<open>None\<close>, strings and
  integers. A metadata dictionary is a map from keys to values.
\<close>

datatype pyval = VNone | VStr string | VInt int

type_synonym pydict = "string \<rightharpoonup> pyval"

text \<open>\<open>str(n)\<close> for a non-negative integer: its decimal digits.\<close>

function str_nat :: "nat \<Rightarrow> string" where
  "str_nat n =
     (if n < 10 then [''0123456789'' ! n]
      else str_nat (n div 10) @ [''0123456789'' ! (n mod 10)])"
  by pat_completeness auto
termination
  by (relation "measure id") auto

declare str_nat.simps [simp del]

text \<open>
  \<open>_generate_chunk_id\<close>: the MD5 hex digest of \<open>f"{file_path}_{chunk_index}"\<close>. The digest
  is a function of the standard library, taken as a parameter.
\<close>

definition generate_chunk_id :: "(string \<Rightarrow> string) \<Rightarrow> string \<Rightarrow> nat \<Rightarrow> string" where
  "generate_chunk_id md5_hexdigest file_path chunk_index =
     md5_hexdigest (file_path @ ''_'' @ str_nat chunk_index)"

text \<open>
  What \<open>ingest_document\<close> reads from the path: \<open>str(file_path)\<close>, \<open>file_path.name\<close>,
  \<open>file_path.suffix\<close> and the size of the file.
\<close>

record document =
  source :: string
  path_name :: string
  path_suffix :: string
  st_size :: int

fun optional_str :: "string option \<Rightarrow> pyval" where
  "optional_str None = VNone"
| "optional_str (Some s) = VStr s"

definition filename_dict :: "filename_metadata \<Rightarrow> pydict" where
  "filename_dict fm =
     [''document_type'' \<mapsto> optional_str (document_type fm),
      ''sector'' \<mapsto> optional_str (sector fm),
      ''date'' \<mapsto> optional_str (date fm)]"

text \<open>
  The merged document metadata: the file attributes, updated with the metadata of the
  processor, then with the metadata derived from the file name, then with the caller's
  override when one is given (each \<open>update\<close> lets the later dictionary win).
\<close>

definition base_metadata ::
  "document \<Rightarrow> pydict \<Rightarrow> string \<Rightarrow> pydict option \<Rightarrow> pydict" where
  "base_metadata doc doc_metadata now metadata_override =
     (case metadata_override of
        None \<Rightarrow>
          [''source'' \<mapsto> VStr (source doc),
           ''file_type'' \<mapsto> VStr (dropWhile (\<lambda>c. c = CHR ''.'') (path_suffix doc)),
           ''file_size'' \<mapsto> VInt (st_size doc),
           ''processed_at'' \<mapsto> VStr now]
          ++ doc_metadata ++ filename_dict (extract_metadata_from_filename (path_name doc))
      | Some override \<Rightarrow>
          [''source'' \<mapsto> VStr (source doc),
           ''file_type'' \<mapsto> VStr (dropWhile (\<lambda>c. c = CHR ''.'') (path_suffix doc)),
           ''file_size'' \<mapsto> VInt (st_size doc),
           ''processed_at'' \<mapsto> VStr now]
          ++ doc_metadata ++ filename_dict (extract_metadata_from_filename (path_name doc))
          ++ override)"

text \<open>The dictionary comprehension that drops the keys whose value is \<open>None\<close>.\<close>

definition cleaned :: "pydict \<Rightarrow> pydict" where
  "cleaned meta = (\<lambda>k. case meta k of Some VNone \<Rightarrow> None | v \<Rightarrow> v)"

text \<open>
  The metadata of one chunk: the dictionary display lists the four chunk keys first and
  spreads \<open>**base_metadata\<close> after them, so a key of the base metadata replaces a chunk
  key of the same name.
\<close>

definition chunk_meta :: "string \<Rightarrow> pydict \<Rightarrow> nat \<Rightarrow> nat \<Rightarrow> string \<Rightarrow> pydict" where
  "chunk_meta file_path base i total_chunks chunk =
     cleaned ([''source'' \<mapsto> VStr file_path,
               ''chunk_index'' \<mapsto> VInt (int i),
               ''total_chunks'' \<mapsto> VInt (int total_chunks),
               ''content'' \<mapsto> VStr (take 500 chunk)] ++ base)"

text \<open>
  The loop \<open>for i, chunk in enumerate(chunks)\<close>: the id and the cleaned metadata of every
  chunk, in order (\<open>chunk_ids\<close> and \<open>chunk_metadata\<close> are the two components).
\<close>

fun chunk_records ::
  "(string \<Rightarrow> string) \<Rightarrow> string \<Rightarrow> pydict \<Rightarrow> nat \<Rightarrow> nat \<Rightarrow> string list
     \<Rightarrow> (string \<times> pydict) list" where
  "chunk_records md5_hexdigest file_path base total_chunks i [] = []"
| "chunk_records md5_hexdigest file_path base total_chunks i (chunk # rest) =
     (generate_chunk_id md5_hexdigest file_path i, chunk_meta file_path base i total_chunks chunk)
     # chunk_records md5_hexdigest file_path base total_chunks (Suc i) rest"

text \<open>
  The result of \<open>ingest_document\<close>: a failure with its reason, or the success record with
  the file, the number of chunks and the upserted count.
\<close>

datatype ingest_result = Failed string | Ingested string nat int

text \<open>
  \<open>ingest_document\<close>. The outcome of the document processor (\<open>None\<close>, or the content and
  the document metadata) and the time stamp are read from the environment and are
  parameters here. The chunker is the semantic chunker with its default sizes, the
  embedding batch size is the default 32 and the upsert batch size the default 100.
\<close>

definition ingest_document ::
  "(string \<Rightarrow> string) \<Rightarrow> 'w embedding_service \<Rightarrow> (vector, pydict) index_service
     \<Rightarrow> vector_store \<Rightarrow> 'w \<Rightarrow> (vector, pydict) request list
     \<Rightarrow> document \<Rightarrow> (string \<times> pydict) option \<Rightarrow> string \<Rightarrow> pydict option \<Rightarrow> string
     \<Rightarrow> (error + ingest_result) \<times> 'w \<times> (vector, pydict) request list" where
  "ingest_document md5_hexdigest embedder service store w sent doc processed now
     metadata_override namespace =
     (case processed of
        None \<Rightarrow> (Inr (Failed ''Processing failed''), w, sent)
      | Some (content, doc_metadata) \<Rightarrow>
          (if SemanticChunker_chunk 1500 500 content = []
           then (Inr (Failed ''No chunks created''), w, sent)
           else (case embed_batch embedder w (SemanticChunker_chunk 1500 500 content) 32 of
                   (Inl e, w') \<Rightarrow> (Inl e, w', sent)
                 | (Inr embeddings, w') \<Rightarrow>
                     (case upsert_batch service store sent embeddings
                             (map fst (chunk_records md5_hexdigest (source doc)
                                (base_metadata doc doc_metadata now metadata_override)
                                (length (SemanticChunker_chunk 1500 500 content)) 0
                                (SemanticChunker_chunk 1500 500 content)))
                             (map snd (chunk_records md5_hexdigest (source doc)
                                (base_metadata doc doc_metadata now metadata_override)
                                (length (SemanticChunker_chunk 1500 500 content)) 0
                                (SemanticChunker_chunk 1500 500 content)))
                             100 namespace of
                        (Inl e, sent') \<Rightarrow> (Inl e, w', sent')
                      | (Inr upserted, sent') \<Rightarrow>
                          (Inr (Ingested (source doc)
                                  (length (SemanticChunker_chunk 1500 500 content)) upserted),
                           w', sent')))))"

section \<open>Predicates used in the statements\<close>

text \<open>
  The characters whose survival through the recursive chunker is stated below: every
  non-whitespace character except the full stop (which belongs to the separator \<open>". "\<close>).
\<close>

definition kept_by_recursive :: "char \<Rightarrow> bool" where
  "kept_by_recursive c = (\<not> py_isspace c \<and> c \<noteq> CHR ''.'')"

text \<open>
  The outcomes of embedding the texts one after another, each call made in the state the
  previous call left, and the state after the last call.
\<close>

fun call_outcomes :: "'w embedding_service \<Rightarrow> 'w \<Rightarrow> string list \<Rightarrow> (error + vector) list" where
  "call_outcomes service w [] = []"
| "call_outcomes service w (t # ts) =
     fst (embed_text service w t) # call_outcomes service (snd (embed_text service w t)) ts"

fun state_after :: "'w embedding_service \<Rightarrow> 'w \<Rightarrow> string list \<Rightarrow> 'w" where
  "state_after service w [] = w"
| "state_after service w (t # ts) = state_after service (snd (embed_text service w t)) ts"

text \<open>The vector stored for an outcome: the embedding, or the zero vector for a failure.\<close>

fun stored_vector :: "error + vector \<Rightarrow> vector" where
  "stored_vector (Inl e) = replicate 768 0"
| "stored_vector (Inr v) = v"

text \<open>
  The answers of the index service to a sequence of requests sent after the requests
  \<open>sent\<close>.
\<close>

fun responses ::
  "('v, 'm) index_service \<Rightarrow> ('v, 'm) request list \<Rightarrow> ('v, 'm) request list
     \<Rightarrow> (error + int) list" where
  "responses service sent [] = []"
| "responses service sent (r # rs) = service sent r # responses service (sent @ [r]) rs"

text \<open>A list cut into consecutive pieces of \<open>n\<close> elements, the last one possibly shorter.\<close>

function pieces_of :: "nat \<Rightarrow> 'a list \<Rightarrow> 'a list list" where
  "pieces_of n xs = (if n = 0 \<or> xs = [] then [] else take n xs # pieces_of n (drop n xs))"
  by pat_completeness auto
termination
  by (relation "measure (\<lambda>(n, xs). length xs)") auto

declare pieces_of.simps [simp del]

text \<open>No two adjacent characters of the string are both a space or a tab.\<close>

fun no_hspace_run :: "string \<Rightarrow> bool" where
  "no_hspace_run (a # b # cs) = (\<not> (is_hspace a \<and> is_hspace b) \<and> no_hspace_run (b # cs))"
| "no_hspace_run cs = True"

text \<open>
  A document of two sentences of 800 characters each, separated by a space: too long for
  one chunk of 1500 characters.
\<close>

definition first_sentence :: string where
  "first_sentence = CHR ''A'' # replicate 798 (CHR ''a'') @ ''.''"

definition second_sentence :: string where
  "second_sentence = CHR ''B'' # replicate 798 (CHR ''b'') @ ''.''"

definition two_sentence_text :: string where
  "two_sentence_text = first_sentence @ '' '' @ second_sentence"

section \<open>Properties\<close>

subsection \<open>Filename-derived metadata\<close>

lemma ecowas_lower:
  "map ascii_lower ''ECOWAS_Mining_Vision_2025.txt'' = ''ecowas_mining_vision_2025.txt''"
  by (simp add: ascii_lower_def)

text \<open>
  Counterexample to claim C6 as stated: the filename rule does not classify
  \<open>ECOWAS_Mining_Vision_2025.txt\<close> as a policy document. None of the words of the three
  document-type patterns occurs in the name, so \<open>document_type\<close> keeps its initial
  value \<open>None\<close>.
\<close>

theorem C6_document_type_not_policy:
  "document_type (extract_metadata_from_filename ''ECOWAS_Mining_Vision_2025.txt'')
     \<noteq> Some ''policy''"
  unfolding extract_metadata_from_filename_def search_words_ignorecase_def ecowas_lower
  by simp

text \<open>
  Claim C6, amended: on the filename \<open>ECOWAS_Mining_Vision_2025.txt\<close> the rule returns no
  document type (\<open>None\<close>), sector \<open>minerals\<close> and date \<open>2025\<close>.
\<close>

theorem C6_ecowas_mining_vision_metadata:
  "extract_metadata_from_filename ''ECOWAS_Mining_Vision_2025.txt'' =
     \<lparr> document_type = None, sector = Some ''minerals'', date = Some ''2025'' \<rparr>"
  unfolding extract_metadata_from_filename_def search_words_ignorecase_def ecowas_lower
  by (simp add: full_date_pattern_def year_pattern_def is_digit_def)

subsection \<open>FixedSizeChunker: the progress test\<close>

lemma window_chunks_Nil: "window_chunks text start stop chunks = [] \<Longrightarrow> chunks = []"
  by (simp add: window_chunks_def split: if_splits)

lemma fixed_size_loop_stuck_aux:
  assumes "fixed_size_loop sz ov text start chunks = Some y"
  shows "\<not> (start < int (length text) \<and> window_end sz text start = Inr (start + ov)
        \<and> window_chunks text start (start + ov) chunks = [])"
proof (rule fixed_size_loop.raw_induct [where P = "\<lambda>sz ov text start chunks y.
          \<not> (start < int (length text) \<and> window_end sz text start = Inr (start + ov)
             \<and> window_chunks text start (start + ov) chunks = [])", OF _ assms], goal_cases)
  case (1 f sz ov tx start chunks y)
  show ?case
  proof
    assume stuck: "start < int (length tx) \<and> window_end sz tx start = Inr (start + ov)
        \<and> window_chunks tx start (start + ov) chunks = []"
    then have "chunks = []" by (blast dest: window_chunks_Nil)
    with stuck 1(2) have "f sz ov tx start chunks = Some y" by simp
    from 1(1) [OF this] stuck show False by blast
  qed
qed

text \<open>
  A window that yields no chunk and whose next start is the same start repeats for ever:
  nothing in the loop moves \<open>start\<close> forward while the chunk list is empty.
\<close>

lemma fixed_size_loop_stuck:
  assumes "start < int (length text)"
    and "window_end sz text start = Inr (start + ov)"
    and "window_chunks text start (start + ov) chunks = []"
  shows "fixed_size_loop sz ov text start chunks = None"
proof (cases "fixed_size_loop sz ov text start chunks")
  case None
  then show ?thesis .
next
  case (Some y)
  with fixed_size_loop_stuck_aux [OF Some] assms show ?thesis by simp
qed

text \<open>
  Whenever the loop returns, it either raised an exception or returns the chunk list it
  was entered with: no iteration both appends a chunk and survives the progress test.
\<close>

lemma fixed_size_loop_result:
  assumes "fixed_size_loop sz ov text start chunks = Some y"
  shows "(\<exists>e. y = Inl e) \<or> y = Inr chunks"
proof (rule fixed_size_loop.raw_induct [where P = "\<lambda>sz ov text start chunks y.
          (\<exists>e. y = Inl e) \<or> y = Inr chunks", OF _ assms], goal_cases)
  case (1 f sz ov tx start chunks y)
  show ?case
  proof (cases "start < int (length tx)")
    case False
    with 1(2) show ?thesis by auto
  next
    case True
    show ?thesis
    proof (cases "window_end sz tx start")
      case (Inl e)
      with True 1(2) show ?thesis by auto
    next
      case (Inr stop)
      show ?thesis
      proof (cases "window_chunks tx start stop chunks = []")
        case False
        with True Inr 1(2) show ?thesis by auto
      next
        case wc: True
        then have c: "chunks = []" by (rule window_chunks_Nil)
        from True Inr wc 1(2) have "f sz ov tx (stop - ov) [] = Some y" by simp
        from 1(1) [OF this] c show ?thesis by simp
      qed
    qed
  qed
qed

lemma FixedSizeChunker_no_chunks:
  "FixedSizeChunker_chunk sz ov text = Some (Inr cs) \<Longrightarrow> cs = []"
  by (auto simp: FixedSizeChunker_chunk_def split: if_splits dest: fixed_size_loop_result)

lemma round53_small: "round53 2 = 2" "round53 (Suc 0) = Suc 0"
  "round53 7205759403792794 = 7205759403792794" "round53 3602879701896397 = 3602879701896397"
  by (simp_all add: round53_def bit_length.simps)

lemma int_fifth_small: "int_fifth 1 = Inr 0" "int_fifth 2 = Inr 0"
  by (simp_all add: int_fifth_def round53_small)

text \<open>
  The product is a product of doubles, not the integer fifth: the operand is rounded to 53
  bits, and so is the product. \<open>int((10**18 + 5) * 0.2)\<close> is \<open>200000000000000000\<close>, one
  less than the integer quotient, and \<open>int((10**16 + 3) * 0.2)\<close> is \<open>2000000000000001\<close>,
  one more.
\<close>

lemma int_fifth_rounds:
  "int_fifth 1000000000000000005 = Inr 200000000000000000"
  "int_fifth (- 1000000000000000005) = Inr (- 200000000000000000)"
  "int_fifth 10000000000000003 = Inr 2000000000000001"
  by (simp_all add: int_fifth_def round53_def round_half_even_def bit_length.simps)

lemma window_end_blank: "window_end 2 ''   a'' 0 = Inr 2"
  by (simp add: window_end_def int_fifth_small py_slice_def py_slice_bound_def
      sentence_end_patterns_def)

lemma window_chunks_blank: "window_chunks ''   a'' 0 2 [] = []"
  by (simp add: window_chunks_def py_slice_def py_slice_bound_def
      py_strip_def py_isspace_def)

lemma FixedSizeChunker_raises:
  "FixedSizeChunker_chunk 1 1 ''ab'' = Some (Inl TypeError)"
  by (simp add: FixedSizeChunker_chunk_def fixed_size_loop.simps window_chunks_def
      window_end_def py_slice_def py_slice_bound_def py_strip_def py_isspace_def int_fifth_small
      sentence_end_patterns_def)

text \<open>
  Claim C1 (FixedSize chunking with overlap at least the size terminates, with forward
  progress on every iteration) fails on the code: with \<open>chunk_size = 2\<close>,
  \<open>chunk_overlap = 2\<close> and the text of three spaces followed by \<open>a\<close>, the first window
  is blank, no chunk is appended, the next start is \<open>2 - 2 = 0\<close> again, and the call
  never returns.
\<close>

theorem C1_fixed_size_overlap_never_returns:
  "FixedSizeChunker_chunk 2 2 ''   a'' = None"
proof -
  have "py_strip ''   a'' \<noteq> []" by (simp add: py_strip_def py_isspace_def)
  moreover have "fixed_size_loop 2 2 ''   a'' 0 [] = None"
    by (rule fixed_size_loop_stuck) (simp_all add: window_end_blank window_chunks_blank)
  ultimately show ?thesis by (simp add: FixedSizeChunker_chunk_def)
qed

subsection \<open>Strings: stripping, joining and filtering\<close>

lemma py_strip_Nil: "py_strip [] = []"
  by (simp add: py_strip_def)

lemma filter_dropWhile_disjoint:
  "(\<And>c. Q c \<Longrightarrow> \<not> P c) \<Longrightarrow> filter P (dropWhile Q s) = filter P s"
  by (induction s) auto

lemma filter_py_strip:
  assumes "\<And>c. py_isspace c \<Longrightarrow> \<not> P c"
  shows "filter P (py_strip s) = filter P s"
proof -
  have "filter P (py_strip s) = rev (filter P (dropWhile py_isspace (rev (dropWhile py_isspace s))))"
    by (simp add: py_strip_def rev_filter)
  also have "\<dots> = rev (filter P (rev (dropWhile py_isspace s)))"
    using assms by (simp add: filter_dropWhile_disjoint)
  also have "\<dots> = filter P (dropWhile py_isspace s)"
    by (simp add: rev_filter)
  also have "\<dots> = filter P s"
    using assms by (simp add: filter_dropWhile_disjoint)
  finally show ?thesis .
qed

lemma py_strip_Nil_iff: "py_strip s = [] \<longleftrightarrow> (\<forall>c \<in> set s. py_isspace c)"
proof
  assume "py_strip s = []"
  then have "dropWhile py_isspace (rev (dropWhile py_isspace s)) = []"
    by (simp add: py_strip_def)
  then have a: "\<forall>c \<in> set (dropWhile py_isspace s). py_isspace c"
    by simp
  show "\<forall>c \<in> set s. py_isspace c"
  proof (cases "dropWhile py_isspace s")
    case Nil
    then show ?thesis by simp
  next
    case (Cons d ds)
    then have "\<not> py_isspace d" using hd_dropWhile [of py_isspace s] by auto
    with a Cons show ?thesis by simp
  qed
next
  assume "\<forall>c \<in> set s. py_isspace c"
  then have d: "dropWhile py_isspace s = []" by simp
  show "py_strip s = []" unfolding py_strip_def d by simp
qed

lemma filter_blank:
  assumes "\<And>c. py_isspace c \<Longrightarrow> \<not> P c" and "py_strip s = []"
  shows "filter P s = []"
  using assms by (auto simp: py_strip_Nil_iff filter_empty_conv)

lemma filter_py_join:
  "(\<And>c. c \<in> set sep \<Longrightarrow> \<not> P c) \<Longrightarrow> filter P (py_join sep xs) = filter P (concat xs)"
proof (induction sep xs rule: py_join.induct)
  case (3 sep x y ys)
  then have "filter P sep = []" by (simp add: filter_empty_conv)
  with 3 show ?case by simp
qed simp_all

lemma filter_concat_map_py_strip:
  assumes "\<And>c. py_isspace c \<Longrightarrow> \<not> P c"
  shows "filter P (concat (map py_strip xs)) = filter P (concat xs)"
  by (induction xs) (simp_all add: filter_py_strip [OF assms])

lemma concat_filter_nonempty: "concat (filter (\<lambda>s. s \<noteq> []) xs) = concat xs"
  by (induction xs) auto

lemma split_at_boundaries_filter:
  assumes "\<And>c. py_isspace c \<Longrightarrow> \<not> P c"
  shows "filter P (concat (split_at_boundaries cur t)) = filter P cur @ filter P t"
proof (induction cur t rule: split_at_boundaries.induct)
  case (1 cur)
  then show ?case by simp
next
  case (2 cur c cs)
  show ?case
  proof (cases "cur \<noteq> [] \<and> is_sentence_end (last cur) \<and> py_isspace c
         \<and> (case dropWhile py_isspace cs of [] \<Rightarrow> False | d # ds \<Rightarrow> is_ascii_upper d)")
    case True
    then have "\<not> P c" using assms by blast
    with True 2(1) [OF True] show ?thesis
      using assms by (simp add: filter_dropWhile_disjoint)
  next
    case False
    with 2(2) [OF False] show ?thesis by auto
  qed
qed

lemma split_sentences_filter:
  assumes "\<And>c. py_isspace c \<Longrightarrow> \<not> P c"
  shows "filter P (concat (split_sentences t)) = filter P t"
  by (simp add: split_sentences_def concat_filter_nonempty
      filter_concat_map_py_strip [OF assms] split_at_boundaries_filter [OF assms])

lemma isspace_space: "py_isspace CHR '' ''"
  by (simp add: py_isspace_def)

lemma semantic_loop_filter:
  assumes "\<And>c. py_isspace c \<Longrightarrow> \<not> P c"
  shows "filter P (concat (semantic_loop mx mn ss chunks cur n)) =
         filter P (concat chunks) @ filter P (concat cur) @ filter P (concat ss)"
proof -
  have sp: "\<And>c. c \<in> set '' '' \<Longrightarrow> \<not> P c"
    using assms isspace_space by auto
  have j0: "\<And>xs. filter P (py_join '' '' xs) = filter P (concat xs)"
    by (rule filter_py_join) (use sp in auto)
  have j: "\<And>xs. filter P (py_strip (py_join '' '' xs)) = filter P (concat xs)"
    by (simp only: filter_py_strip [OF assms] j0)
  show ?thesis
  proof (induction ss arbitrary: chunks cur n)
    case Nil
    show ?case
    proof (cases "cur \<noteq> [] \<and> py_strip (py_join '' '' cur) \<noteq> []")
      case True
      then show ?thesis by (simp add: j)
    next
      case False
      then have "filter P (py_strip (py_join '' '' cur)) = []"
        by (auto simp: py_strip_Nil)
      then have "filter P (concat cur) = []" by (simp add: j)
      with False show ?thesis by auto
    qed
  next
    case (Cons s ss)
    then show ?case by (simp add: j)
  qed
qed

lemma SemanticChunker_filter:
  assumes "\<And>c. py_isspace c \<Longrightarrow> \<not> P c"
  shows "filter P (concat (SemanticChunker_chunk mx mn t)) = filter P t"
  by (simp add: SemanticChunker_chunk_def semantic_loop_filter [OF assms]
      split_sentences_filter [OF assms] filter_blank [OF assms])

lemma prefix_filter_drop:
  assumes "prefix sep t" and "\<And>c. c \<in> set sep \<Longrightarrow> \<not> P c"
  shows "filter P (drop (length sep) t) = filter P t"
proof -
  from assms(1) obtain r where t: "t = sep @ r" by (auto simp: prefix_def)
  have "filter P sep = []" using assms(2) by (simp add: filter_empty_conv)
  with t show ?thesis by simp
qed

lemma py_split_from_filter:
  assumes "\<And>c. c \<in> set sep \<Longrightarrow> \<not> P c"
  shows "filter P (concat (py_split_from cur sep t)) = filter P cur @ filter P t"
  using assms
proof (induction cur sep t rule: py_split_from.induct)
  case (1 cur sep)
  then show ?case by simp
next
  case (2 cur sep c cs)
  show ?case
  proof (cases "sep \<noteq> [] \<and> prefix sep (c # cs)")
    case True
    have "filter P (drop (length sep) (c # cs)) = filter P (c # cs)"
      using True "2.prems" by (intro prefix_filter_drop) auto
    with True "2.IH"(1) [OF True "2.prems"] show ?thesis by simp
  next
    case False
    with "2.IH"(2) [OF False "2.prems"] show ?thesis by auto
  qed
qed

lemma py_split_filter:
  assumes "\<And>c. c \<in> set sep \<Longrightarrow> \<not> P c"
  shows "filter P (concat (py_split sep t)) = filter P t"
  by (simp add: py_split_def py_split_from_filter [OF assms])

lemma concat_chars: "concat (map (\<lambda>c. [c]) t) = t"
  by (induction t) simp_all

lemma merge_splits_filter:
  assumes "\<And>c. c \<in> set sep \<Longrightarrow> \<not> P c"
  shows "filter P (concat (merge_splits sz sep splits cur n)) =
         filter P (concat cur) @ filter P (concat splits)"
  by (induction splits arbitrary: cur n) (simp_all add: filter_py_join [OF assms])

lemma recursive_split_filter:
  assumes ws: "\<And>c. py_isspace c \<Longrightarrow> \<not> P c"
    and seps: "\<And>sep c. sep \<in> set seps \<Longrightarrow> c \<in> set sep \<Longrightarrow> \<not> P c"
  shows "filter P (concat (recursive_split sz seps t)) = filter P t"
  using seps
proof (induction seps arbitrary: t)
  case Nil
  then show ?case by (simp add: filter_blank [OF ws])
next
  case (Cons sep rem)
  have sepP: "\<And>c. c \<in> set sep \<Longrightarrow> \<not> P c" using Cons.prems by auto
  have IH: "\<And>u. filter P (concat (recursive_split sz rem u)) = filter P u"
    using Cons.IH Cons.prems by auto
  let ?f = "\<lambda>chunk_text. if int (length chunk_text) > sz \<and> rem \<noteq> []
              then recursive_split sz rem chunk_text else [chunk_text]"
  have pieces: "\<And>ms. filter P (concat (concat (map ?f ms))) = filter P (concat ms)"
  proof -
    fix ms show "filter P (concat (concat (map ?f ms))) = filter P (concat ms)"
      by (induction ms) (simp_all add: IH)
  qed
  have splits: "filter P (concat (if sep \<noteq> [] then py_split sep t else map (\<lambda>c. [c]) t)) = filter P t"
    by (simp add: py_split_filter [OF sepP] concat_chars)
  show ?case
    by (simp only: recursive_split.simps concat_filter_nonempty
        filter_concat_map_py_strip [OF ws] pieces merge_splits_filter [OF sepP] splits)
      simp
qed

lemma RecursiveChunker_filter:
  "filter kept_by_recursive (concat (RecursiveChunker_chunk sz default_separators t)) =
   filter kept_by_recursive t"
proof -
  have ws: "\<And>c. py_isspace c \<Longrightarrow> \<not> kept_by_recursive c"
    by (simp add: kept_by_recursive_def)
  have seps: "\<And>sep c. sep \<in> set default_separators \<Longrightarrow> c \<in> set sep \<Longrightarrow> \<not> kept_by_recursive c"
    by (auto simp: default_separators_def kept_by_recursive_def py_isspace_def)
  show ?thesis
    by (simp add: RecursiveChunker_chunk_def recursive_split_filter [OF ws seps]
        filter_blank [OF ws])
qed

lemma length_py_strip_le: "length (py_strip s) \<le> length s"
proof -
  have "length (dropWhile py_isspace (rev (dropWhile py_isspace s)))
          \<le> length (rev (dropWhile py_isspace s))"
    by (rule length_dropWhile_le)
  also have "\<dots> \<le> length s" by (simp add: length_dropWhile_le)
  finally show ?thesis by (simp add: py_strip_def)
qed

lemma last_dropWhile: "dropWhile P xs \<noteq> [] \<Longrightarrow> last (dropWhile P xs) = last xs"
  by (induction xs) (auto split: if_splits)

lemma py_strip_ends:
  assumes "py_strip x \<noteq> []"
  shows "\<not> py_isspace (hd (py_strip x))" and "\<not> py_isspace (last (py_strip x))"
proof -
  let ?y = "dropWhile py_isspace x"
  let ?z = "dropWhile py_isspace (rev ?y)"
  from assms have z: "?z \<noteq> []" by (simp add: py_strip_def)
  then have y: "?y \<noteq> []" by (metis dropWhile.simps(1) rev.simps(1))
  have "last (py_strip x) = hd ?z" using z by (simp add: py_strip_def last_rev)
  moreover have "\<not> py_isspace (hd ?z)" using z by (rule hd_dropWhile)
  ultimately show "\<not> py_isspace (last (py_strip x))" by simp
  have "last ?z = last (rev ?y)" using z by (rule last_dropWhile)
  moreover have "last (rev ?y) = hd ?y" by (rule last_rev)
  moreover have "hd (rev ?z) = last ?z" by (rule hd_rev)
  ultimately have "hd (py_strip x) = hd ?y" by (simp only: py_strip_def)
  moreover have "\<not> py_isspace (hd ?y)" using y by (rule hd_dropWhile)
  ultimately show "\<not> py_isspace (hd (py_strip x))" by simp
qed

lemma py_strip_id:
  assumes "s \<noteq> []" "\<not> py_isspace (hd s)" "\<not> py_isspace (last s)"
  shows "py_strip s = s"
proof -
  from assms obtain c cs where s: "s = c # cs" by (cases s) auto
  with assms have 1: "dropWhile py_isspace s = s" by simp
  from assms have "rev s \<noteq> []" "\<not> py_isspace (hd (rev s))" by (simp_all add: hd_rev)
  then have 2: "dropWhile py_isspace (rev s) = rev s" by (cases "rev s") auto
  show ?thesis by (simp add: py_strip_def 1 2)
qed

lemma split_at_boundaries_length:
  "sum_list (map length (split_at_boundaries cur t)) \<le> length cur + length t"
proof (induction cur t rule: split_at_boundaries.induct)
  case (1 cur)
  then show ?case by simp
next
  case (2 cur c cs)
  show ?case
  proof (cases "cur \<noteq> [] \<and> is_sentence_end (last cur) \<and> py_isspace c
         \<and> (case dropWhile py_isspace cs of [] \<Rightarrow> False | d # ds \<Rightarrow> is_ascii_upper d)")
    case True
    have "length (dropWhile py_isspace cs) \<le> length cs" by (rule length_dropWhile_le)
    with True 2(1) [OF True] show ?thesis by simp
  next
    case False
    with 2(2) [OF False] show ?thesis by auto
  qed
qed

lemma sum_length_strip_filter:
  "sum_list (map length (filter (\<lambda>s. s \<noteq> []) (map py_strip xs))) \<le> sum_list (map length xs)"
proof (induction xs)
  case Nil
  then show ?case by simp
next
  case (Cons x xs)
  have "length (py_strip x) \<le> length x" by (rule length_py_strip_le)
  with Cons show ?case by auto
qed

lemma split_sentences_length: "sum_list (map length (split_sentences t)) \<le> length t"
proof -
  have "sum_list (map length (split_sentences t))
          \<le> sum_list (map length (split_at_boundaries [] t))"
    unfolding split_sentences_def by (rule sum_length_strip_filter)
  also have "\<dots> \<le> length t" using split_at_boundaries_length [of "[]" t] by simp
  finally show ?thesis .
qed

lemma split_sentences_stripped:
  assumes "s \<in> set (split_sentences t)"
  shows "s \<noteq> [] \<and> \<not> py_isspace (hd s) \<and> \<not> py_isspace (last s)"
proof -
  from assms obtain x where "s = py_strip x" "s \<noteq> []"
    by (auto simp: split_sentences_def)
  then show ?thesis using py_strip_ends [of x] by simp
qed

lemma split_sentences_nonblank:
  assumes "split_sentences t \<noteq> []"
  shows "py_strip t \<noteq> []"
proof
  assume blank: "py_strip t = []"
  from assms obtain s where s: "s \<in> set (split_sentences t)" by (cases "split_sentences t") auto
  then have "s \<noteq> []" "\<not> py_isspace (hd s)" using split_sentences_stripped by blast+
  then have "hd s \<in> set s" "\<not> py_isspace (hd s)" by simp_all
  then have "hd s \<in> set (filter (\<lambda>c. \<not> py_isspace c) (concat (split_sentences t)))"
    using s by auto
  moreover have "filter (\<lambda>c. \<not> py_isspace c) (concat (split_sentences t)) = []"
    using blank by (simp add: split_sentences_filter filter_blank)
  ultimately show False by simp
qed

lemma semantic_short_text_one_chunk:
  assumes sents: "split_sentences t = [s1, s2, s3]"
    and short: "int (length t) \<le> mx"
  shows "SemanticChunker_chunk mx mn t = [s1 @ '' '' @ s2 @ '' '' @ s3]"
proof -
  have nb: "py_strip t \<noteq> []" using sents by (intro split_sentences_nonblank) simp
  have "sum_list (map length (split_sentences t)) \<le> length t" by (rule split_sentences_length)
  with sents short have len: "int (length s1) + int (length s2) + int (length s3) \<le> mx"
    by simp
  have s1: "s1 \<noteq> []" "\<not> py_isspace (hd s1)"
    using split_sentences_stripped [of s1 t] sents by simp_all
  have s3: "s3 \<noteq> []" "\<not> py_isspace (last s3)"
    using split_sentences_stripped [of s3 t] sents by simp_all
  let ?j = "s1 @ '' '' @ s2 @ '' '' @ s3"
  have "py_strip ?j = ?j"
    using s1 s3 by (intro py_strip_id) simp_all
  moreover have "?j \<noteq> []" using s1 by simp
  ultimately show ?thesis
    using nb len sents by (simp add: SemanticChunker_chunk_def)
qed

subsection \<open>Chunkers and the content of the input\<close>

text \<open>
  Counterexample to claim C2 as stated: the recursive chunker with \<open>chunk_size = 4\<close> and
  the default separators splits \<open>aaa. bbb\<close> at the separator \<open>". "\<close> into \<open>aaa\<close> and
  \<open>bbb\<close>; the full stop, a non-whitespace character of the input, is in no chunk.
\<close>

theorem C2_recursive_drops_full_stop:
  "CHR ''.'' \<in> set ''aaa. bbb'' \<and> \<not> py_isspace CHR ''.''
   \<and> RecursiveChunker_chunk 4 default_separators ''aaa. bbb'' = [''aaa'', ''bbb'']
   \<and> CHR ''.'' \<notin> set (concat (RecursiveChunker_chunk 4 default_separators ''aaa. bbb''))"
  by (simp add: RecursiveChunker_chunk_def default_separators_def py_split_def py_strip_def
      py_isspace_def)

text \<open>
  Claim C2, amended. For every input text: the semantic chunker (any maximum and minimum)
  returns chunks whose non-whitespace characters are exactly those of the input, in
  order; the recursive chunker with its default separators (any chunk size) returns
  chunks whose non-whitespace characters other than the full stop are exactly those of
  the input, in order. (A full stop can be lost where the separator \<open>". "\<close> falls between
  two chunks. Nothing is stated for the fixed-size chunker.)
\<close>

theorem C2_chunkers_keep_content:
  "filter (\<lambda>c. \<not> py_isspace c) (concat (SemanticChunker_chunk mx mn t))
     = filter (\<lambda>c. \<not> py_isspace c) t
   \<and> filter kept_by_recursive (concat (RecursiveChunker_chunk sz default_separators t))
     = filter kept_by_recursive t"
proof
  show "filter (\<lambda>c. \<not> py_isspace c) (concat (SemanticChunker_chunk mx mn t))
     = filter (\<lambda>c. \<not> py_isspace c) t"
    by (rule SemanticChunker_filter) simp
  show "filter kept_by_recursive (concat (RecursiveChunker_chunk sz default_separators t))
     = filter kept_by_recursive t"
    by (rule RecursiveChunker_filter)
qed

text \<open>
  Claim C8: a text of 40 characters that the sentence splitter cuts into three sentences
  is returned by the semantic chunker with \<open>max = 1000\<close> and \<open>min = 500\<close> as exactly one
  chunk, the three sentences in order joined by single spaces, although the chunk is
  shorter than \<open>min\<close>.
\<close>

theorem C8_three_sentences_one_chunk:
  assumes "split_sentences t = [s1, s2, s3]" and "length t = 40"
  shows "SemanticChunker_chunk 1000 500 t = [s1 @ '' '' @ s2 @ '' '' @ s3]"
  using assms by (intro semantic_short_text_one_chunk) simp_all

theorem C8_three_sentences_one_chunk_witness:
  "split_sentences ''Hello world. This is two. Third one end.''
     = [''Hello world.'', ''This is two.'', ''Third one end.'']
   \<and> length ''Hello world. This is two. Third one end.'' = 40
   \<and> SemanticChunker_chunk 1000 500 ''Hello world. This is two. Third one end.''
     = [''Hello world. This is two. Third one end.'']"
proof -
  have h1: "split_sentences ''Hello world. This is two. Third one end.''
     = [''Hello world.'', ''This is two.'', ''Third one end.'']"
    by (simp add: split_sentences_def py_strip_def py_isspace_def is_sentence_end_def
        is_ascii_upper_def)
  have h2: "length ''Hello world. This is two. Third one end.'' = 40" by simp
  from C8_three_sentences_one_chunk [OF h1 h2] h1 h2 show ?thesis by simp
qed

subsection \<open>Batch embedding\<close>

lemma py_slice_nonneg:
  "0 \<le> a \<Longrightarrow> 0 \<le> b \<Longrightarrow> py_slice xs a (a + b) = take (nat b) (drop (nat a) xs)"
  by (auto simp: py_slice_def py_slice_bound_def drop_take min_def nat_add_distrib take_all)

lemma call_outcomes_append:
  "call_outcomes service w (xs @ ys) =
     call_outcomes service w xs @ call_outcomes service (state_after service w xs) ys"
  by (induction xs arbitrary: w) simp_all

lemma state_after_append:
  "state_after service w (xs @ ys) = state_after service (state_after service w xs) ys"
  by (induction xs arbitrary: w) simp_all

lemma length_call_outcomes: "length (call_outcomes service w ts) = length ts"
  by (induction ts arbitrary: w) simp_all

lemma embed_items_eq:
  "embed_items service w ts acc =
     (acc @ map stored_vector (call_outcomes service w ts), state_after service w ts)"
proof (induction ts arbitrary: w acc)
  case Nil
  then show ?case by simp
next
  case (Cons t ts)
  show ?case
  proof (cases "embed_text service w t")
    case (Pair r w')
    then show ?thesis by (cases r) (simp_all add: Cons dimension_def)
  qed
qed

lemma embed_batches_eq:
  assumes "0 < bs" and "0 \<le> i"
  shows "embed_batches service w texts bs (py_range i (int (length texts)) bs) acc =
     (acc @ map stored_vector (call_outcomes service w (drop (nat i) texts)),
      state_after service w (drop (nat i) texts))"
  using assms
proof (induction i "int (length texts)" bs arbitrary: w acc rule: py_range.induct)
  case (1 start step)
  show ?case
  proof (cases "start < int (length texts)")
    case False
    with 1(3,4) show ?thesis by (simp add: py_range.simps [of start])
  next
    case True
    let ?b = "take (nat step) (drop (nat start) texts)"
    have sl: "py_slice texts start (start + step) = ?b"
      using 1(3,4) by (simp add: py_slice_nonneg)
    have dr: "drop (nat (start + step)) texts = drop (nat step) (drop (nat start) texts)"
      using 1(3,4) by (simp add: nat_add_distrib add.commute)
    have split: "drop (nat start) texts = ?b @ drop (nat step) (drop (nat start) texts)"
      by (rule append_take_drop_id [symmetric])
    have IH: "\<And>w acc. embed_batches service w texts step
                 (py_range (start + step) (int (length texts)) step) acc =
               (acc @ map stored_vector (call_outcomes service w (drop (nat (start + step)) texts)),
                state_after service w (drop (nat (start + step)) texts))"
      using 1(1) True 1(3,4) by simp
    have "embed_batches service w texts step (py_range start (int (length texts)) step) acc =
          embed_batches service (state_after service w ?b) texts step
            (py_range (start + step) (int (length texts)) step)
            (acc @ map stored_vector (call_outcomes service w ?b))"
      using True 1(3) by (simp add: py_range.simps [of start] sl embed_items_eq)
    also have "\<dots> = (acc @ map stored_vector (call_outcomes service w (?b @ drop (nat step) (drop (nat start) texts))),
                state_after service w (?b @ drop (nat step) (drop (nat start) texts)))"
      by (simp only: IH dr call_outcomes_append state_after_append map_append append_assoc)
    finally show ?thesis by (simp only: split [symmetric])
  qed
qed

lemma embed_batch_eq:
  assumes "0 < bs"
  shows "embed_batch service w texts bs =
     (Inr (map stored_vector (call_outcomes service w texts)), state_after service w texts)"
  using assms embed_batches_eq [of bs 0 service w texts "[]"]
  by (simp add: embed_batch_def)

text \<open>
  Claim C3: for every list of texts and every positive batch size (the default is 32),
  \<open>embed_batch\<close> returns normally, and its result is the list of the outcomes of the
  embedding calls, made one per text in order, where every failed call is replaced by
  the zero vector of dimension 768 and every successful call by its embedding; the
  result has the length of the input. The witness embeds five texts with a service whose
  third call raises.
\<close>

theorem C3_embed_batch_aligned:
  assumes "0 < batch_size"
  shows "fst (embed_batch service w texts batch_size)
           = Inr (map stored_vector (call_outcomes service w texts))
         \<and> length (map stored_vector (call_outcomes service w texts)) = length texts"
  using assms by (simp add: embed_batch_eq length_call_outcomes)

theorem C3_embed_batch_aligned_witness:
  "(0::int) < 32
   \<and> call_outcomes
        (\<lambda>w t. (if w = (2::nat) then Inl (ServiceError ''timeout'') else Inr [real w], Suc w))
        0 [''a'', ''b'', ''c'', ''d'', ''e'']
       = [Inr [0], Inr [1], Inl (ServiceError ''timeout''), Inr [3], Inr [4]]
   \<and> fst (embed_batch
        (\<lambda>w t. (if w = (2::nat) then Inl (ServiceError ''timeout'') else Inr [real w], Suc w))
        0 [''a'', ''b'', ''c'', ''d'', ''e''] 32)
       = Inr [[0], [1], replicate 768 0, [3], [4]]"
  using C3_embed_batch_aligned [of 32
      "\<lambda>w t. (if w = (2::nat) then Inl (ServiceError ''timeout'') else Inr [real w], Suc w)"
      0 "[''a'', ''b'', ''c'', ''d'', ''e'']"]
  by (simp add: embed_text_def)

subsection \<open>Vector store: upsert\<close>

text \<open>
  Claim C10: on an initialised index, \<open>upsert\<close> with lists that do not all have the same
  length raises \<open>ValueError\<close> and sends nothing to the index service (the list of
  requests sent is unchanged); a request is sent only when the three lengths are equal.
\<close>

theorem C10_upsert_length_mismatch:
  assumes "index store \<noteq> None"
  shows "(\<not> (length vectors = length ids \<and> length vectors = length metadata) \<longrightarrow>
            upsert service store sent vectors ids metadata namespace
              = (Inl (ValueError ''vectors, ids, and metadata must have same length''), sent))
         \<and> (snd (upsert service store sent vectors ids metadata namespace) \<noteq> sent \<longrightarrow>
            length vectors = length ids \<and> length vectors = length metadata)"
  using assms by (auto simp: upsert_def)

theorem C10_upsert_length_mismatch_witness:
  "index \<lparr>index_name = ''kb'', index = Some ''kb''\<rparr> \<noteq> None
   \<and> \<not> (length [[1::real], [2]] = length [''id0''] \<and> length [[1::real], [2]] = length [(), ()])
   \<and> upsert (\<lambda>sent r. Inr (int (length (fst r)))) \<lparr>index_name = ''kb'', index = Some ''kb''\<rparr>
        [] [[1::real], [2]] [''id0''] [(), ()] ''ns''
      = (Inl (ValueError ''vectors, ids, and metadata must have same length''), [])"
  using C10_upsert_length_mismatch [of "\<lparr>index_name = ''kb'', index = Some ''kb''\<rparr>"
      "[[1::real], [2]]" "[''id0'']" "[(), ()]" "\<lambda>sent r. Inr (int (length (fst r)))" "[]" "''ns''"]
  by simp

subsection \<open>Vector store: batched upsert\<close>

lemma pieces_of_Nil: "pieces_of n [] = []"
  by (simp add: pieces_of.simps [of n "[]"])

lemma pieces_of_step:
  "0 < n \<Longrightarrow> xs \<noteq> [] \<Longrightarrow> pieces_of n xs = take n xs # pieces_of n (drop n xs)"
  by (simp add: pieces_of.simps [of n xs])

lemma concat_pieces_of: "0 < n \<Longrightarrow> concat (pieces_of n xs) = xs"
proof (induction n xs rule: pieces_of.induct)
  case (1 n xs)
  show ?case
  proof (cases "xs = []")
    case True
    then show ?thesis by (simp add: pieces_of_Nil)
  next
    case False
    with 1 show ?thesis by (simp add: pieces_of_step)
  qed
qed

lemma pieces_of_bounded: "p \<in> set (pieces_of n xs) \<Longrightarrow> length p \<le> n"
proof (induction n xs rule: pieces_of.induct)
  case (1 n xs)
  show ?case
  proof (cases "n = 0 \<or> xs = []")
    case True
    with 1(2) show ?thesis by (simp add: pieces_of.simps [of n xs])
  next
    case False
    with 1(2) have "p = take n xs \<or> p \<in> set (pieces_of n (drop n xs))"
      by (simp add: pieces_of_step)
    then show ?thesis using 1(1) [OF False] by auto
  qed
qed

lemma ceil_shift: "0 < n \<Longrightarrow> 0 < m \<Longrightarrow> (m + n - 1) div n = Suc ((m - 1) div n)" for m n :: nat
proof -
  assume a: "0 < n" "0 < m"
  then have e: "m + n - 1 = (m - 1) + n" by arith
  have "((m - 1) + n) div n = (m - 1) div n + 1" using a(1) by (intro div_add_self2) simp
  then show ?thesis unfolding e by simp
qed

lemma ceil_small: "0 < n \<Longrightarrow> 0 < m \<Longrightarrow> m \<le> n \<Longrightarrow> (m + n - 1) div n = 1" for m n :: nat
proof -
  assume a: "0 < n" "0 < m" "m \<le> n"
  then have "(m - 1) div n = 0" by simp
  with ceil_shift [OF a(1,2)] show ?thesis by simp
qed

lemma ceil_step: "0 < n \<Longrightarrow> n < m \<Longrightarrow> (m + n - 1) div n = Suc ((m - n + n - 1) div n)" for m n :: nat
proof -
  assume a: "0 < n" "n < m"
  then have "m - n + n - 1 = m - 1" by arith
  with ceil_shift [of n m] a show ?thesis by simp
qed

lemma length_pieces_of: "0 < n \<Longrightarrow> length (pieces_of n xs) = (length xs + n - 1) div n"
proof (induction n xs rule: pieces_of.induct)
  case (1 n xs)
  show ?case
  proof (cases "xs = []")
    case True
    with 1(2) show ?thesis by (simp add: pieces_of_Nil)
  next
    case False
    then have pos: "0 < length xs" by simp
    from False 1(2) have ne: "\<not> (n = 0 \<or> xs = [])" by simp
    have IH: "length (pieces_of n (drop n xs)) = (length (drop n xs) + n - 1) div n"
      by (rule 1(1) [OF ne 1(2)])
    have step: "length (pieces_of n xs) = Suc (length (pieces_of n (drop n xs)))"
      by (simp only: pieces_of_step [OF 1(2) False] list.size length_Cons)
    show ?thesis
    proof (cases "length xs \<le> n")
      case True
      then have "drop n xs = []" by simp
      then have "length (pieces_of n xs) = 1" by (simp only: step pieces_of_Nil) simp
      with ceil_small [OF 1(2) pos True] show ?thesis by (simp only:)
    next
      case F: False
      then have lt: "n < length xs" by simp
      have "length (drop n xs) = length xs - n" by (rule length_drop)
      with IH have "length (pieces_of n (drop n xs)) = (length xs - n + n - 1) div n"
        by (simp only:)
      with step ceil_step [OF 1(2) lt] show ?thesis by (simp only:)
    qed
  qed
qed

lemma sizes_250_100:
  assumes "length xs = 250"
  shows "map length (pieces_of 100 xs) = [100, 100, 50]"
proof -
  have p: "(0::nat) < 100" by simp
  have 1: "xs \<noteq> []" using assms by auto
  have 2: "drop 100 xs \<noteq> []" using assms by auto
  have 3: "drop 100 (drop 100 xs) \<noteq> []" using assms by auto
  have 4: "drop 100 (drop 100 (drop 100 xs)) = []" using assms by auto
  have "pieces_of 100 xs =
          [take 100 xs, take 100 (drop 100 xs), take 100 (drop 100 (drop 100 xs))]"
    by (simp only: pieces_of_step [OF p 1] pieces_of_step [OF p 2] pieces_of_step [OF p 3] 4
        pieces_of_Nil)
  then show ?thesis using assms by simp
qed

lemma upsert_equal_lengths:
  assumes "index store \<noteq> None" "length ids = length vectors" "length metadata = length vectors"
  shows "upsert service store sent vectors ids metadata ns =
     (service sent (zip ids (zip vectors metadata), ns),
      sent @ [(zip ids (zip vectors metadata), ns)])"
  using assms by (simp add: upsert_def)

lemma upsert_slices:
  assumes "index store \<noteq> None" "length ids = length vectors" "length metadata = length vectors"
    and "0 \<le> i" "0 < bs"
  shows "upsert service store sent (py_slice vectors i (i + bs)) (py_slice ids i (i + bs))
           (py_slice metadata i (i + bs)) ns =
     (service sent (take (nat bs) (drop (nat i) (zip ids (zip vectors metadata))), ns),
      sent @ [(take (nat bs) (drop (nat i) (zip ids (zip vectors metadata))), ns)])"
proof -
  have sl: "\<And>xs :: 'c list. py_slice xs i (i + bs) = take (nat bs) (drop (nat i) xs)"
    using assms(4,5) by (simp add: py_slice_nonneg)
  have z: "zip (take (nat bs) (drop (nat i) ids))
             (zip (take (nat bs) (drop (nat i) vectors)) (take (nat bs) (drop (nat i) metadata)))
           = take (nat bs) (drop (nat i) (zip ids (zip vectors metadata)))"
    by (simp only: take_zip drop_zip)
  show ?thesis
    using assms(2,3)
    by (simp only: py_slice_nonneg [OF assms(4) order.strict_implies_order [OF assms(5)]]
        upsert_equal_lengths [OF assms(1)] length_take length_drop z)
qed

lemma upsert_batches_eq:
  assumes "0 < bs" and "0 \<le> i"
    and "index store \<noteq> None" "length ids = length vectors" "length metadata = length vectors"
    and "upsert_batches service store vectors ids metadata bs ns
           (py_range i (int (length vectors)) bs) tot sent = (Inr tot', sent')"
  shows "\<exists>acks. sent' = sent @ map (\<lambda>p. (p, ns))
                    (pieces_of (nat bs) (drop (nat i) (zip ids (zip vectors metadata))))
           \<and> responses service sent (map (\<lambda>p. (p, ns))
                    (pieces_of (nat bs) (drop (nat i) (zip ids (zip vectors metadata)))))
               = map Inr acks
           \<and> tot' = tot + sum_list acks"
  using assms
proof (induction i "int (length vectors)" bs arbitrary: tot sent
       rule: py_range.induct)
  case (1 start step)
  let ?data = "zip ids (zip vectors metadata)"
  have len: "length ?data = length vectors" using 1(6,7) by simp
  show ?case
  proof (cases "start < int (length vectors)")
    case False
    then have "drop (nat start) ?data = []" using len by simp
    moreover from False 1(3) 1(8) have "tot' = tot \<and> sent' = sent"
      by (simp add: py_range.simps [of start])
    ultimately show ?thesis by (simp add: pieces_of_Nil)
  next
    case True
    let ?p = "take (nat step) (drop (nat start) ?data)"
    let ?rest = "drop (nat (start + step)) ?data"
    have ne: "drop (nat start) ?data \<noteq> []" using True 1(4) len by simp
    have dr: "drop (nat step) (drop (nat start) ?data) = ?rest"
      using 1(3,4) by (simp add: nat_add_distrib add.commute)
    have pcs: "pieces_of (nat step) (drop (nat start) ?data) = ?p # pieces_of (nat step) ?rest"
      using 1(3) ne by (simp only: pieces_of_step [of "nat step", OF _ ne] dr)
    have up: "upsert service store sent (py_slice vectors start (start + step))
                (py_slice ids start (start + step)) (py_slice metadata start (start + step)) ns
              = (service sent (?p, ns), sent @ [(?p, ns)])"
      by (rule upsert_slices [OF 1(5) 1(6) 1(7) 1(4) 1(3)])
    have unroll: "py_range start (int (length vectors)) step
                  = start # py_range (start + step) (int (length vectors)) step"
      using True 1(3) by (simp add: py_range.simps [of start])
    from 1(8) obtain n where ack: "service sent (?p, ns) = Inr n"
      and rec: "upsert_batches service store vectors ids metadata step ns
                  (py_range (start + step) (int (length vectors)) step) (tot + n)
                  (sent @ [(?p, ns)]) = (Inr tot', sent')"
      unfolding unroll by (cases "service sent (?p, ns)") (simp_all add: up)
    have "0 \<le> start + step" using 1(3,4) by simp
    from 1(1) [OF _ 1(3) this 1(5) 1(6) 1(7) rec] True 1(3)
    obtain acks where
      a1: "sent' = (sent @ [(?p, ns)]) @ map (\<lambda>p. (p, ns)) (pieces_of (nat step) ?rest)"
      and a2: "responses service (sent @ [(?p, ns)]) (map (\<lambda>p. (p, ns)) (pieces_of (nat step) ?rest))
               = map Inr acks"
      and a3: "tot' = tot + n + sum_list acks"
      by auto
    show ?thesis
      by (rule exI [of _ "n # acks"]) (simp add: pcs a1 a2 a3 ack)
  qed
qed

lemma ceil_int_nat:
  assumes "0 < bs"
  shows "nat ((int n + bs - 1) div bs) = (n + nat bs - 1) div nat bs"
proof -
  have "int ((n + nat bs - 1) div nat bs) = int (n + nat bs - 1) div int (nat bs)"
    by (rule zdiv_int)
  also have "int (n + nat bs - 1) = int n + bs - 1" using assms by (simp add: of_nat_diff)
  also have "int (nat bs) = bs" using assms by simp
  finally show ?thesis by simp
qed

text \<open>
  Claim C5: on an initialised index, with the three lists of the same length \<open>n\<close> and a
  positive batch size, a call of \<open>upsert_batch\<close> that returns a total has sent, after the
  requests already sent and in this order, \<open>ceil(n / batch_size)\<close> requests; each carries at
  most \<open>batch_size\<close> entries and the namespace, their entries concatenated are the input
  entries in order, and the total is the sum of the counts the index service acknowledged
  for these requests. With 250 vectors and a batch size of 100 the requests carry 100,
  100 and 50 entries.
\<close>

theorem C5_upsert_batch_partitions:
  assumes "0 < batch_size" and "index store \<noteq> None"
    and "length ids = length vectors" and "length metadata = length vectors"
    and "upsert_batch service store sent vectors ids metadata batch_size ns = (Inr tot, sent')"
  shows "\<exists>calls acks. sent' = sent @ calls
     \<and> length calls = nat ((int (length vectors) + batch_size - 1) div batch_size)
     \<and> (\<forall>c \<in> set calls. length (fst c) \<le> nat batch_size \<and> snd c = ns)
     \<and> concat (map fst calls) = zip ids (zip vectors metadata)
     \<and> responses service sent calls = map Inr acks \<and> tot = sum_list acks
     \<and> (length vectors = 250 \<and> batch_size = 100 \<longrightarrow>
          map (\<lambda>c. length (fst c)) calls = [100, 100, 50])"
proof -
  let ?data = "zip ids (zip vectors metadata)"
  let ?ps = "pieces_of (nat batch_size) ?data"
  let ?calls = "map (\<lambda>p. (p, ns)) ?ps"
  have pos: "0 < nat batch_size" using assms(1) by simp
  have len: "length ?data = length vectors" using assms(3,4) by simp
  from assms(1,5) have run: "upsert_batches service store vectors ids metadata batch_size ns
      (py_range 0 (int (length vectors)) batch_size) 0 sent = (Inr tot, sent')"
    by (simp add: upsert_batch_def)
  from upsert_batches_eq [OF assms(1) order_refl assms(2,3,4) run]
  obtain acks where s: "sent' = sent @ ?calls"
    and r: "responses service sent ?calls = map Inr acks" and t: "tot = sum_list acks"
    by auto
  have l: "length ?calls = nat ((int (length vectors) + batch_size - 1) div batch_size)"
    by (simp only: length_map length_pieces_of [OF pos] len ceil_int_nat [OF assms(1)])
  have b: "\<forall>c \<in> set ?calls. length (fst c) \<le> nat batch_size \<and> snd c = ns"
  proof
    fix c assume "c \<in> set ?calls"
    then obtain p where "p \<in> set ?ps" "c = (p, ns)" by auto
    then show "length (fst c) \<le> nat batch_size \<and> snd c = ns"
      using pieces_of_bounded [of p "nat batch_size" ?data] by simp
  qed
  have c: "concat (map fst ?calls) = ?data"
    by (simp add: comp_def concat_pieces_of [OF pos])
  have z: "length vectors = 250 \<and> batch_size = 100 \<longrightarrow>
          map (\<lambda>c. length (fst c)) ?calls = [100, 100, 50]"
  proof
    assume a: "length vectors = 250 \<and> batch_size = 100"
    then have "map length (pieces_of 100 ?data) = [100, 100, 50]"
      using len by (intro sizes_250_100) simp
    with a show "map (\<lambda>c. length (fst c)) ?calls = [100, 100, 50]"
      by (simp add: comp_def)
  qed
  show ?thesis
    by (rule exI [of _ ?calls], rule exI [of _ acks]) (intro conjI s l b c r t z)
qed

lemma upsert_batch_250:
  "upsert_batch (\<lambda>sent r. Inr (int (length (fst r)))) \<lparr>index_name = ''kb'', index = Some ''kb''\<rparr> []
      (replicate 250 [0::real]) (replicate 250 ''id'') (replicate 250 ()) 100 ''ns''
   = (Inr 250, [(replicate 100 (''id'', [0], ()), ''ns''), (replicate 100 (''id'', [0], ()), ''ns''),
                (replicate 50 (''id'', [0], ()), ''ns'')])"
proof -
  have r: "py_range 0 250 100 = [0, 100, 200]"
    by (simp add: py_range.simps [of 0] py_range.simps [of 100] py_range.simps [of 200]
        py_range.simps [of 300])
  show ?thesis
    by (simp add: upsert_batch_def r upsert_def py_slice_def py_slice_bound_def zip_replicate)
qed

theorem C5_upsert_batch_partitions_witness:
  "(0::int) < 100
   \<and> index \<lparr>index_name = ''kb'', index = Some ''kb''\<rparr> \<noteq> None
   \<and> length (replicate 250 ''id'') = length (replicate 250 [0::real])
   \<and> length (replicate 250 ()) = length (replicate 250 [0::real])
   \<and> upsert_batch (\<lambda>sent r. Inr (int (length (fst r))))
        \<lparr>index_name = ''kb'', index = Some ''kb''\<rparr> []
        (replicate 250 [0::real]) (replicate 250 ''id'') (replicate 250 ()) 100 ''ns''
      = (Inr 250, [(replicate 100 (''id'', [0], ()), ''ns''),
                   (replicate 100 (''id'', [0], ()), ''ns''),
                   (replicate 50 (''id'', [0], ()), ''ns'')])
   \<and> (\<exists>calls acks.
         [(replicate 100 (''id'', [0::real], ()), ''ns''), (replicate 100 (''id'', [0], ()), ''ns''),
          (replicate 50 (''id'', [0], ()), ''ns'')] = [] @ calls
       \<and> length calls = nat ((int (length (replicate 250 [0::real])) + 100 - 1) div 100)
       \<and> (\<forall>c \<in> set calls. length (fst c) \<le> nat 100 \<and> snd c = ''ns'')
       \<and> concat (map fst calls)
           = zip (replicate 250 ''id'') (zip (replicate 250 [0::real]) (replicate 250 ()))
       \<and> responses (\<lambda>sent r. Inr (int (length (fst r)))) [] calls = map Inr acks
       \<and> (250::int) = sum_list acks
       \<and> (length (replicate 250 [0::real]) = 250 \<and> (100::int) = 100 \<longrightarrow>
            map (\<lambda>c. length (fst c)) calls = [100, 100, 50]))"
proof -
  have h1: "(0::int) < 100" by simp
  have h2: "index \<lparr>index_name = ''kb'', index = Some ''kb''\<rparr> \<noteq> None" by simp
  have h3: "length (replicate 250 ''id'') = length (replicate 250 [0::real])" by simp
  have h4: "length (replicate 250 ()) = length (replicate 250 [0::real])" by simp
  note h5 = upsert_batch_250
  from C5_upsert_batch_partitions [OF h1 h2 h3 h4 h5] h1 h2 h3 h4 h5
  show ?thesis by (intro conjI)
qed

subsection \<open>Ingestion: chunk metadata\<close>

lemma cleaned_chunk_key:
  assumes "base k = None" and "m k = Some (VInt v)"
  shows "cleaned (m ++ base) k = Some (VInt v)"
  using assms by (simp add: cleaned_def map_add_def)

lemma chunk_meta_chunk_index:
  "base ''chunk_index'' = None \<Longrightarrow>
   chunk_meta fp base i n chunk ''chunk_index'' = Some (VInt (int i))"
  unfolding chunk_meta_def by (rule cleaned_chunk_key) simp_all

lemma chunk_meta_total_chunks:
  "base ''total_chunks'' = None \<Longrightarrow>
   chunk_meta fp base i n chunk ''total_chunks'' = Some (VInt (int n))"
  unfolding chunk_meta_def by (rule cleaned_chunk_key) simp_all

lemma length_chunk_records [simp]:
  "length (chunk_records h fp base n i chunks) = length chunks"
  by (induction chunks arbitrary: i) simp_all

lemma upt_shift: "[i ..< i + Suc n] = i # [Suc i ..< Suc i + n]"
proof -
  have "i < i + Suc n" by simp
  then have "[i ..< i + Suc n] = i # [Suc i ..< i + Suc n]" by (rule upt_conv_Cons)
  then show ?thesis by (simp only: add_Suc add_Suc_right)
qed

lemma chunk_records_chunk_index:
  assumes "base ''chunk_index'' = None"
  shows "map (\<lambda>r. snd r ''chunk_index'') (chunk_records h fp base n i chunks)
         = map (\<lambda>j. Some (VInt (int j))) [i ..< i + length chunks]"
proof (induction chunks arbitrary: i)
  case Nil
  then show ?case by simp
next
  case (Cons c cs)
  have "[i ..< i + length (c # cs)] = i # [Suc i ..< Suc i + length cs]"
    using upt_shift [of i "length cs"] by simp
  then show ?case using assms by (simp add: Cons chunk_meta_chunk_index del: upt_Suc)
qed

lemma chunk_records_total_chunks:
  assumes "base ''total_chunks'' = None"
  shows "r \<in> set (chunk_records h fp base n i chunks) \<Longrightarrow>
         snd r ''total_chunks'' = Some (VInt (int n))"
  using assms by (induction chunks arbitrary: i) (auto simp: chunk_meta_total_chunks)

lemma base_metadata_no_key:
  assumes "k \<notin> {''source'', ''file_type'', ''file_size'', ''processed_at'',
                  ''document_type'', ''sector'', ''date''}"
    and "doc_metadata k = None"
    and "case metadata_override of None \<Rightarrow> True | Some m \<Rightarrow> m k = None"
  shows "base_metadata doc doc_metadata now metadata_override k = None"
  using assms
  by (cases metadata_override) (auto simp: base_metadata_def filename_dict_def map_add_def)

lemma upsert_batch_success_index:
  assumes "upsert_batch service store sent vectors ids metadata bs ns = (Inr t, sent')"
    and "0 < bs" and "vectors \<noteq> []"
  shows "index store \<noteq> None"
proof
  assume none: "index store = None"
  have "py_range 0 (int (length vectors)) bs = 0 # py_range bs (int (length vectors)) bs"
    using assms(2,3) by (simp add: py_range.simps [of 0])
  with assms(1,2) none show False
    by (simp add: upsert_batch_def upsert_def)
qed

lemma upsert_batch_sent:
  assumes "0 < bs" and "index store \<noteq> None"
    and "length ids = length vectors" and "length metadata = length vectors"
    and "upsert_batch service store sent vectors ids metadata bs ns = (Inr t, sent')"
  shows "\<exists>calls. sent' = sent @ calls
           \<and> concat (map fst calls) = zip ids (zip vectors metadata)"
proof -
  let ?ps = "pieces_of (nat bs) (zip ids (zip vectors metadata))"
  from assms(1,5) have run: "upsert_batches service store vectors ids metadata bs ns
      (py_range 0 (int (length vectors)) bs) 0 sent = (Inr t, sent')"
    by (simp add: upsert_batch_def)
  from upsert_batches_eq [OF assms(1) order_refl assms(2,3,4) run]
  have s: "sent' = sent @ map (\<lambda>p. (p, ns)) ?ps" by auto
  have "concat (map fst (map (\<lambda>p. (p, ns)) ?ps)) = zip ids (zip vectors metadata)"
    using assms(1) by (simp add: comp_def concat_pieces_of)
  with s show ?thesis by blast
qed

lemma map_third_zip:
  "length as = length cs \<Longrightarrow> length bs = length cs \<Longrightarrow>
   map (\<lambda>e. snd (snd e)) (zip as (zip bs cs)) = cs"
proof (induction cs arbitrary: as bs)
  case Nil
  then show ?case by simp
next
  case (Cons c cs)
  then obtain a as' b bs' where "as = a # as'" "bs = b # bs'"
    by (cases as; cases bs) auto
  with Cons show ?case by simp
qed

text \<open>
  Claim C9, amended: for every successful ingestion of a document whose processor
  metadata and caller override define neither \<open>chunk_index\<close> nor \<open>total_chunks\<close>, with
  \<open>k\<close> the chunk count reported, \<open>k\<close> is the number of chunks of the content, and the
  entries sent to the index by this ingestion carry, in order, the chunk indices
  \<open>0, 1, ..., k - 1\<close>, and every entry carries \<open>total_chunks = k\<close>.
\<close>

theorem C9_chunk_indices_dense:
  assumes ok: "ingest_document h embedder service store w sent doc
                 (Some (content, doc_metadata)) now metadata_override ns
               = (Inr (Ingested f k n), w', sent')"
    and d1: "doc_metadata ''chunk_index'' = None"
    and d2: "doc_metadata ''total_chunks'' = None"
    and ov: "case metadata_override of None \<Rightarrow> True
             | Some m \<Rightarrow> m ''chunk_index'' = None \<and> m ''total_chunks'' = None"
  shows "k = length (SemanticChunker_chunk 1500 500 content)
     \<and> (\<exists>calls. sent' = sent @ calls
          \<and> map (\<lambda>e. snd (snd e) ''chunk_index'') (concat (map fst calls))
              = map (\<lambda>i. Some (VInt (int i))) [0 ..< k]
          \<and> (\<forall>e \<in> set (concat (map fst calls)).
                snd (snd e) ''total_chunks'' = Some (VInt (int k))))"
proof -
  let ?chunks = "SemanticChunker_chunk 1500 500 content"
  let ?base = "base_metadata doc doc_metadata now metadata_override"
  let ?recs = "chunk_records h (source doc) ?base (length ?chunks) 0 ?chunks"
  let ?embs = "map stored_vector (call_outcomes embedder w ?chunks)"
  have b1: "?base ''chunk_index'' = None"
    using d1 ov by (intro base_metadata_no_key) (auto split: option.splits)
  have b2: "?base ''total_chunks'' = None"
    using d2 ov by (intro base_metadata_no_key) (auto split: option.splits)
  have eb: "embed_batch embedder w ?chunks 32 = (Inr ?embs, state_after embedder w ?chunks)"
    by (rule embed_batch_eq) simp
  from ok have ne: "?chunks \<noteq> []"
    by (auto simp: ingest_document_def split: if_splits)
  from ok ne have up: "upsert_batch service store sent ?embs (map fst ?recs) (map snd ?recs) 100 ns
                       = (Inr n, sent')" and k: "k = length ?chunks"
    by (auto simp: ingest_document_def eb split: prod.splits sum.splits)
  have le: "length ?embs = length ?chunks" by (simp add: length_call_outcomes)
  have ix: "index store \<noteq> None"
    using up ne le by (intro upsert_batch_success_index [OF up]) auto
  from upsert_batch_sent [OF _ ix _ _ up] le
  obtain calls where s: "sent' = sent @ calls"
    and c: "concat (map fst calls) = zip (map fst ?recs) (zip ?embs (map snd ?recs))"
    by auto
  have metas: "map (\<lambda>e. snd (snd e)) (concat (map fst calls)) = map snd ?recs"
    unfolding c using le by (intro map_third_zip) simp_all
  have "map (\<lambda>e. snd (snd e) ''chunk_index'') (concat (map fst calls))
        = map (\<lambda>m. m ''chunk_index'') (map (\<lambda>e. snd (snd e)) (concat (map fst calls)))"
    by (simp add: comp_def)
  also have "\<dots> = map (\<lambda>r. snd r ''chunk_index'') ?recs"
    by (simp only: metas) (simp add: comp_def)
  also have "\<dots> = map (\<lambda>j. Some (VInt (int j))) [0 ..< 0 + length ?chunks]"
    using b1 by (rule chunk_records_chunk_index [where base = ?base])
  finally have ci: "map (\<lambda>e. snd (snd e) ''chunk_index'') (concat (map fst calls))
        = map (\<lambda>i. Some (VInt (int i))) [0 ..< k]"
    using k by simp
  have tc: "\<forall>e \<in> set (concat (map fst calls)).
              snd (snd e) ''total_chunks'' = Some (VInt (int k))"
  proof
    fix e assume "e \<in> set (concat (map fst calls))"
    then have "snd (snd e) \<in> (\<lambda>e. snd (snd e)) ` set (concat (map fst calls))"
      by (rule imageI)
    then have "snd (snd e) \<in> set (map (\<lambda>e. snd (snd e)) (concat (map fst calls)))"
      by (simp only: set_map)
    then have "snd (snd e) \<in> set (map snd ?recs)" by (simp only: metas)
    then obtain r where "r \<in> set ?recs" "snd r = snd (snd e)" by auto
    with chunk_records_total_chunks [where base = ?base and r = r, OF b2] k
    show "snd (snd e) ''total_chunks'' = Some (VInt (int k))" by simp
  qed
  show ?thesis
    by (intro conjI k exI [of _ calls]) (rule s, rule ci, rule tc)
qed

lemma hello_chunks: "SemanticChunker_chunk 1500 500 ''Hello.'' = [''Hello.'']"
  by (simp add: SemanticChunker_chunk_def split_sentences_def py_strip_def py_isspace_def
      is_sentence_end_def is_ascii_upper_def)

lemma range_one: "py_range 0 1 32 = [0]" "py_range 0 1 100 = [0]"
  by (simp_all add: py_range.simps [of 0] py_range.simps [of 32] py_range.simps [of 100])

lemma ingest_hello:
  "fst (ingest_document (\<lambda>s. s) (\<lambda>w t. (Inr [0], w)) (\<lambda>sent r. Inr (int (length (fst r))))
      \<lparr>index_name = ''kb'', index = Some ''kb''\<rparr> () []
      \<lparr>source = ''docs/a.txt'', path_name = ''a.txt'', path_suffix = ''.txt'', st_size = 6\<rparr>
      (Some (''Hello.'', Map.empty)) ''2025-01-01T00:00:00'' ov '''')
   = Inr (Ingested ''docs/a.txt'' 1 1)"
  by (simp add: ingest_document_def hello_chunks embed_batch_def embed_text_def range_one
      upsert_batch_def upsert_def py_slice_def py_slice_bound_def)

text \<open>
  Counterexample to claim C9 as stated: a successful ingestion of a one-chunk document
  with the caller override \<open>{"total_chunks": 99}\<close> sends an entry whose metadata has
  \<open>total_chunks = 99\<close>, not the chunk count 1: the base metadata is spread after the chunk
  keys and replaces them.
\<close>

theorem C9_override_replaces_total_chunks:
  "fst (ingest_document (\<lambda>s. s) (\<lambda>w t. (Inr [0], w)) (\<lambda>sent r. Inr (int (length (fst r))))
      \<lparr>index_name = ''kb'', index = Some ''kb''\<rparr> () []
      \<lparr>source = ''docs/a.txt'', path_name = ''a.txt'', path_suffix = ''.txt'', st_size = 6\<rparr>
      (Some (''Hello.'', Map.empty)) ''2025-01-01T00:00:00''
      (Some [''total_chunks'' \<mapsto> VInt 99]) '''')
   = Inr (Ingested ''docs/a.txt'' 1 1)
   \<and> map (\<lambda>e. snd (snd e) ''total_chunks'')
       (concat (map fst (snd (snd
         (ingest_document (\<lambda>s. s) (\<lambda>w t. (Inr [0], w)) (\<lambda>sent r. Inr (int (length (fst r))))
            \<lparr>index_name = ''kb'', index = Some ''kb''\<rparr> () []
            \<lparr>source = ''docs/a.txt'', path_name = ''a.txt'', path_suffix = ''.txt'', st_size = 6\<rparr>
            (Some (''Hello.'', Map.empty)) ''2025-01-01T00:00:00''
            (Some [''total_chunks'' \<mapsto> VInt 99]) '''')))))
     = [Some (VInt 99)]"
  by (simp add: ingest_hello)
     (simp add: ingest_document_def hello_chunks embed_batch_def embed_text_def range_one
      upsert_batch_def upsert_def py_slice_def py_slice_bound_def chunk_meta_def cleaned_def
      base_metadata_def map_add_def)

text \<open>
  The two-sentence document is cut into its two sentences: the second sentence does not
  fit into the chunk of the first, and the first is longer than the minimum chunk size.
\<close>

lemma split_at_boundaries_no_space:
  "(\<And>c. c \<in> set t \<Longrightarrow> \<not> py_isspace c) \<Longrightarrow> split_at_boundaries cur t = [cur @ t]"
  by (induction t arbitrary: cur) auto

lemma split_at_boundaries_boundary:
  assumes "\<And>c. c \<in> set x \<Longrightarrow> \<not> py_isspace c"
    and "cur @ x \<noteq> []" and "is_sentence_end (last (cur @ x))"
    and "py_isspace c" and "is_ascii_upper d" and "\<not> py_isspace d"
  shows "split_at_boundaries cur (x @ c # d # ds) = (cur @ x) # split_at_boundaries [] (d # ds)"
  using assms(1,2,3)
proof (induction x arbitrary: cur)
  case Nil
  then show ?case using assms(4,5,6) by simp
next
  case (Cons a x)
  have "\<not> py_isspace a" using Cons.prems(1) by simp
  moreover have "split_at_boundaries (cur @ [a]) (x @ c # d # ds)
                 = ((cur @ [a]) @ x) # split_at_boundaries [] (d # ds)"
    using Cons.prems by (intro Cons.IH) simp_all
  ultimately show ?case by simp
qed

lemma sentence_facts:
  "length first_sentence = 800" "length second_sentence = 800"
  "first_sentence \<noteq> []" "second_sentence \<noteq> []"
  "hd first_sentence = CHR ''A''" "last first_sentence = CHR ''.''"
  "hd second_sentence = CHR ''B''" "last second_sentence = CHR ''.''"
  by (simp_all add: first_sentence_def second_sentence_def)

lemma sentence_no_space:
  "c \<in> set first_sentence \<Longrightarrow> \<not> py_isspace c"
  "c \<in> set second_sentence \<Longrightarrow> \<not> py_isspace c"
  by (auto simp: first_sentence_def second_sentence_def py_isspace_def)

lemma sentence_stripped:
  "py_strip first_sentence = first_sentence" "py_strip second_sentence = second_sentence"
  by (rule py_strip_id; simp add: sentence_facts py_isspace_def)+

lemma two_sentences: "split_sentences two_sentence_text = [first_sentence, second_sentence]"
proof -
  have "split_at_boundaries [] (first_sentence @ CHR '' '' # CHR ''B'' # (replicate 798 (CHR ''b'') @ ''.''))
        = ([] @ first_sentence) # split_at_boundaries [] (CHR ''B'' # (replicate 798 (CHR ''b'') @ ''.''))"
  proof (rule split_at_boundaries_boundary)
    show "\<And>c. c \<in> set first_sentence \<Longrightarrow> \<not> py_isspace c"
      by (rule sentence_no_space)
  qed (simp_all add: sentence_facts is_sentence_end_def is_ascii_upper_def py_isspace_def)
  also have "split_at_boundaries [] (CHR ''B'' # (replicate 798 (CHR ''b'') @ ''.''))
             = [[] @ second_sentence]"
    unfolding second_sentence_def [symmetric]
    by (rule split_at_boundaries_no_space) (rule sentence_no_space)
  finally have "split_at_boundaries [] two_sentence_text = [first_sentence, second_sentence]"
    by (simp add: two_sentence_text_def second_sentence_def)
  then show ?thesis
    by (simp add: split_sentences_def sentence_stripped sentence_facts)
qed

lemma two_chunks:
  "SemanticChunker_chunk 1500 500 two_sentence_text = [first_sentence, second_sentence]"
proof -
  have "CHR ''A'' \<in> set two_sentence_text"
    by (simp add: two_sentence_text_def first_sentence_def)
  moreover have "\<not> py_isspace CHR ''A''" by (simp add: py_isspace_def)
  ultimately have "py_strip two_sentence_text \<noteq> []"
    unfolding py_strip_Nil_iff by blast
  then show ?thesis
    by (simp add: SemanticChunker_chunk_def two_sentences sentence_facts sentence_stripped)
qed

lemma range_two: "py_range 0 2 32 = [0]" "py_range 0 2 100 = [0]"
  by (simp_all add: py_range.simps [of 0] py_range.simps [of 32] py_range.simps [of 100])

lemma ingest_two_sentences:
  "fst (ingest_document h (\<lambda>w t. (Inr [0], w)) (\<lambda>sent r. Inr (int (length (fst r))))
      \<lparr>index_name = ''kb'', index = Some ''kb''\<rparr> () []
      \<lparr>source = ''docs/a.txt'', path_name = ''a.txt'', path_suffix = ''.txt'', st_size = 1601\<rparr>
      (Some (two_sentence_text, dm)) now ov ns)
   = Inr (Ingested ''docs/a.txt'' 2 2)"
  by (simp add: ingest_document_def two_chunks embed_batch_def embed_text_def range_two
      upsert_batch_def upsert_def py_slice_def py_slice_bound_def)

lemma map_const_replicate:
  "\<forall>x \<in> set xs. f x = c \<Longrightarrow> map f xs = replicate (length xs) c"
  by (induction xs) simp_all

theorem C9_chunk_indices_dense_witness:
  "fst (ingest_document (\<lambda>s. s) (\<lambda>w t. (Inr [0], w)) (\<lambda>sent r. Inr (int (length (fst r))))
        \<lparr>index_name = ''kb'', index = Some ''kb''\<rparr> () []
        \<lparr>source = ''docs/a.txt'', path_name = ''a.txt'', path_suffix = ''.txt'', st_size = 1601\<rparr>
        (Some (two_sentence_text, [''title'' \<mapsto> VStr ''Two sentences'']))
        ''2025-01-01T00:00:00'' (Some [''sector'' \<mapsto> VStr ''energy'']) ''kb'')
     = Inr (Ingested ''docs/a.txt'' 2 2)
   \<and> length (SemanticChunker_chunk 1500 500 two_sentence_text) = 2
   \<and> map (\<lambda>e. snd (snd e) ''chunk_index'')
       (concat (map fst (snd (snd
         (ingest_document (\<lambda>s. s) (\<lambda>w t. (Inr [0], w)) (\<lambda>sent r. Inr (int (length (fst r))))
            \<lparr>index_name = ''kb'', index = Some ''kb''\<rparr> () []
            \<lparr>source = ''docs/a.txt'', path_name = ''a.txt'', path_suffix = ''.txt'', st_size = 1601\<rparr>
            (Some (two_sentence_text, [''title'' \<mapsto> VStr ''Two sentences'']))
            ''2025-01-01T00:00:00'' (Some [''sector'' \<mapsto> VStr ''energy'']) ''kb'')))))
     = [Some (VInt 0), Some (VInt 1)]
   \<and> map (\<lambda>e. snd (snd e) ''total_chunks'')
       (concat (map fst (snd (snd
         (ingest_document (\<lambda>s. s) (\<lambda>w t. (Inr [0], w)) (\<lambda>sent r. Inr (int (length (fst r))))
            \<lparr>index_name = ''kb'', index = Some ''kb''\<rparr> () []
            \<lparr>source = ''docs/a.txt'', path_name = ''a.txt'', path_suffix = ''.txt'', st_size = 1601\<rparr>
            (Some (two_sentence_text, [''title'' \<mapsto> VStr ''Two sentences'']))
            ''2025-01-01T00:00:00'' (Some [''sector'' \<mapsto> VStr ''energy'']) ''kb'')))))
     = [Some (VInt 2), Some (VInt 2)]"
proof -
  let ?dm = "[''title'' \<mapsto> VStr ''Two sentences''] :: pydict"
  let ?ov = "Some [''sector'' \<mapsto> VStr ''energy''] :: pydict option"
  let ?X = "ingest_document (\<lambda>s. s) (\<lambda>w t. (Inr [0], w)) (\<lambda>sent r. Inr (int (length (fst r))))
        \<lparr>index_name = ''kb'', index = Some ''kb''\<rparr> () []
        \<lparr>source = ''docs/a.txt'', path_name = ''a.txt'', path_suffix = ''.txt'', st_size = 1601\<rparr>
        (Some (two_sentence_text, ?dm)) ''2025-01-01T00:00:00'' ?ov ''kb''"
  have res: "fst ?X = Inr (Ingested ''docs/a.txt'' 2 2)"
    by (rule ingest_two_sentences)
  then have ok: "?X = (Inr (Ingested ''docs/a.txt'' 2 2), fst (snd ?X), snd (snd ?X))"
    by (simp add: prod_eq_iff)
  have d1: "?dm ''chunk_index'' = None" by simp
  have d2: "?dm ''total_chunks'' = None" by simp
  have ov: "case ?ov of None \<Rightarrow> True
            | Some m \<Rightarrow> m ''chunk_index'' = None \<and> m ''total_chunks'' = None" by simp
  have two: "[0 ..< 2] = [0, Suc 0]" by (simp add: numeral_2_eq_2)
  from C9_chunk_indices_dense [OF ok d1 d2 ov]
  obtain calls where len: "2 = length (SemanticChunker_chunk 1500 500 two_sentence_text)"
    and calls: "snd (snd ?X) = [] @ calls"
    and ci: "map (\<lambda>e. snd (snd e) ''chunk_index'') (concat (map fst calls))
             = map (\<lambda>i. Some (VInt (int i))) [0 ..< 2]"
    and tc: "\<forall>e \<in> set (concat (map fst calls)).
               snd (snd e) ''total_chunks'' = Some (VInt (int 2))"
    by blast
  from calls have c: "snd (snd ?X) = calls" by simp
  have n: "length (concat (map fst calls)) = 2"
    using arg_cong [OF ci, of length] by simp
  have ci': "map (\<lambda>e. snd (snd e) ''chunk_index'') (concat (map fst calls))
             = [Some (VInt 0), Some (VInt 1)]"
    using ci unfolding two by simp
  have "map (\<lambda>e. snd (snd e) ''total_chunks'') (concat (map fst calls))
        = replicate (length (concat (map fst calls))) (Some (VInt 2))"
    using tc by (intro map_const_replicate) simp
  then have tc': "map (\<lambda>e. snd (snd e) ''total_chunks'') (concat (map fst calls))
                  = [Some (VInt 2), Some (VInt 2)]"
    unfolding n by (simp add: numeral_2_eq_2)
  show ?thesis
    unfolding c using res len ci' tc' by (intro conjI) simp_all
qed

subsection \<open>The sanitizer\<close>

lemma set_py_strip: "set (py_strip s) \<subseteq> set s"
proof -
  have "set (py_strip s) \<subseteq> set (rev (dropWhile py_isspace s))"
    unfolding py_strip_def set_rev by (auto dest: set_dropWhileD)
  also have "\<dots> \<subseteq> set s" by (auto dest: set_dropWhileD)
  finally show ?thesis .
qed

lemma set_collapse_hspace: "c \<in> set (collapse_hspace s) \<Longrightarrow> c \<in> set s \<or> c = CHR '' ''"
proof (induction s rule: collapse_hspace.induct)
  case 1
  then show ?case by simp
next
  case (2 x xs)
  then show ?case by (auto split: if_splits dest: set_dropWhileD)
qed

lemma set_collapse_newlines: "c \<in> set (collapse_newlines s) \<Longrightarrow> c \<in> set s"
proof (induction s rule: collapse_newlines.induct)
  case 1
  then show ?case by simp
next
  case (2 x xs)
  show ?case
  proof (cases "x = CHR 0x0A")
    case True
    with 2(3) have "c = CHR 0x0A \<or> c \<in> set (takeWhile (\<lambda>d. d = CHR 0x0A) xs)
        \<or> c \<in> set (collapse_newlines (dropWhile (\<lambda>d. d = CHR 0x0A) xs))"
      by (auto simp: Let_def split: if_splits)
    with 2(1) True show ?thesis by (auto dest: set_takeWhileD set_dropWhileD)
  next
    case False
    with 2 show ?thesis by auto
  qed
qed

lemma set_py_split_from:
  "l \<in> set (py_split_from cur sep t) \<Longrightarrow> set l \<subseteq> set cur \<union> set t"
proof (induction cur sep t rule: py_split_from.induct)
  case (1 cur sep)
  then show ?case by simp
next
  case (2 cur sep c cs)
  show ?case
  proof (cases "sep \<noteq> [] \<and> prefix sep (c # cs)")
    case True
    with 2(3) have "l = cur \<or> l \<in> set (py_split_from [] sep (drop (length sep) (c # cs)))"
      by simp
    then show ?thesis
    proof
      assume "l = cur" then show ?thesis by auto
    next
      assume "l \<in> set (py_split_from [] sep (drop (length sep) (c # cs)))"
      from 2(1) [OF True this] have "set l \<subseteq> set (drop (length sep) (c # cs))" by simp
      also have "\<dots> \<subseteq> set (c # cs)" by (rule set_drop_subset)
      finally show ?thesis by auto
    qed
  next
    case False
    with 2(3) have "l \<in> set (py_split_from (cur @ [c]) sep cs)" by simp
    from 2(2) [OF False this] show ?thesis by auto
  qed
qed

lemma set_py_join: "set (py_join sep ls) \<subseteq> set sep \<union> \<Union> (set ` set ls)"
  by (induction sep ls rule: py_join.induct) auto

lemma sanitize_text_chars:
  assumes "c \<in> set (sanitize_text t)"
  shows "(c \<in> set t \<and> \<not> is_removed_control c) \<or> c = CHR '' '' \<or> c = CHR 0x0A"
proof -
  let ?t1 = "filter (\<lambda>c. \<not> is_removed_control c) t"
  let ?t3 = "collapse_newlines (collapse_hspace ?t1)"
  let ?lines = "map py_strip (py_split [CHR 0x0A] ?t3)"
  from assms have "c \<in> set (py_join [CHR 0x0A] ?lines)"
    using set_py_strip by (auto simp: sanitize_text_def Let_def)
  then have "c = CHR 0x0A \<or> (\<exists>l \<in> set ?lines. c \<in> set l)"
    using set_py_join [of "[CHR 0x0A]" ?lines] by auto
  then show ?thesis
  proof
    assume "c = CHR 0x0A" then show ?thesis by simp
  next
    assume "\<exists>l \<in> set ?lines. c \<in> set l"
    then obtain l where l: "l \<in> set (py_split [CHR 0x0A] ?t3)" and "c \<in> set (py_strip l)"
      by auto
    then have "c \<in> set l" using set_py_strip by auto
    with l have "c \<in> set ?t3" using set_py_split_from [of l "[]" "[CHR 0x0A]" ?t3]
      by (auto simp: py_split_def)
    then have "c \<in> set (collapse_hspace ?t1)" by (rule set_collapse_newlines)
    then have "c \<in> set ?t1 \<or> c = CHR '' ''" by (rule set_collapse_hspace)
    then show ?thesis by auto
  qed
qed

lemma sanitize_text_no_removed_control:
  "c \<in> set (sanitize_text t) \<Longrightarrow> \<not> is_removed_control c"
  using sanitize_text_chars [of c t] by (auto simp: is_removed_control_def)

lemma nhr_Cons: "no_hspace_run (a # s) \<longleftrightarrow>
   (s = [] \<or> \<not> (is_hspace a \<and> is_hspace (hd s))) \<and> no_hspace_run s"
  by (cases s) auto

lemma nhr_append: "no_hspace_run (xs @ ys) \<longleftrightarrow>
   no_hspace_run xs \<and> no_hspace_run ys
   \<and> (xs = [] \<or> ys = [] \<or> \<not> (is_hspace (last xs) \<and> is_hspace (hd ys)))"
proof (induction xs)
  case Nil
  then show ?case by simp
next
  case (Cons a xs)
  show ?case
  proof (cases xs)
    case Nil
    then show ?thesis by (cases ys) auto
  next
    case (Cons b zs)
    with Cons.IH show ?thesis by auto
  qed
qed

lemma nhr_rev: "no_hspace_run (rev s) = no_hspace_run s"
proof (induction s)
  case Nil
  then show ?case by simp
next
  case (Cons a s)
  then show ?case by (cases s) (auto simp: nhr_append hd_rev last_rev)
qed

lemma nhr_dropWhile: "no_hspace_run s \<Longrightarrow> no_hspace_run (dropWhile f s)"
  by (induction s) (auto simp: nhr_Cons)

lemma nhr_drop: "no_hspace_run s \<Longrightarrow> no_hspace_run (drop n s)"
proof -
  assume "no_hspace_run s"
  then have "no_hspace_run (take n s @ drop n s)" by simp
  then show ?thesis unfolding nhr_append by blast
qed

lemma nhr_py_strip: "no_hspace_run s \<Longrightarrow> no_hspace_run (py_strip s)"
  by (simp add: py_strip_def nhr_rev nhr_dropWhile)

lemma hd_collapse_hspace:
  "s \<noteq> [] \<Longrightarrow> collapse_hspace s \<noteq> [] \<and> (is_hspace (hd (collapse_hspace s)) \<longrightarrow> is_hspace (hd s))"
  by (cases s) (auto simp: is_hspace_def)

lemma nhr_collapse_hspace: "no_hspace_run (collapse_hspace s)"
proof (induction s rule: collapse_hspace.induct)
  case 1
  then show ?case by simp
next
  case (2 c cs)
  show ?case
  proof (cases "is_hspace c")
    case True
    let ?r = "dropWhile is_hspace cs"
    have "collapse_hspace ?r = [] \<or> \<not> is_hspace (hd (collapse_hspace ?r))"
    proof (cases "?r = []")
      case True
      then have "collapse_hspace ?r = collapse_hspace []" by (simp only:)
      then show ?thesis by simp
    next
      case False
      then have "\<not> is_hspace (hd ?r)" by (rule hd_dropWhile)
      with hd_collapse_hspace [OF False] show ?thesis by blast
    qed
    moreover have "collapse_hspace (c # cs) = CHR '' '' # collapse_hspace ?r"
      using True by simp
    ultimately show ?thesis using 2(1) [OF True] by (simp only: nhr_Cons) blast
  next
    case False
    with 2(2) show ?thesis by (simp add: nhr_Cons)
  qed
qed

lemma nhr_newlines_append:
  assumes "\<forall>x \<in> set r. \<not> is_hspace x" and "no_hspace_run u"
  shows "no_hspace_run (r @ u)"
  using assms by (induction r) (auto simp: nhr_Cons)

lemma hd_collapse_newlines:
  "s \<noteq> [] \<Longrightarrow> collapse_newlines s \<noteq> [] \<and> hd (collapse_newlines s) = hd s"
  by (cases s) (auto simp: Let_def)

lemma nhr_collapse_newlines: "no_hspace_run s \<Longrightarrow> no_hspace_run (collapse_newlines s)"
proof (induction s rule: collapse_newlines.induct)
  case 1
  then show ?case by simp
next
  case (2 c cs)
  from 2(3) have cs: "no_hspace_run cs" by (simp add: nhr_Cons)
  show ?case
  proof (cases "c = CHR 0x0A")
    case True
    let ?run = "c # takeWhile (\<lambda>d. d = CHR 0x0A) cs"
    let ?out = "if 3 \<le> length ?run then [CHR 0x0A, CHR 0x0A] else ?run"
    have "no_hspace_run (collapse_newlines (dropWhile (\<lambda>d. d = CHR 0x0A) cs))"
      using 2(1) [OF True refl] cs by (simp add: nhr_dropWhile)
    moreover have "\<forall>x \<in> set ?out. \<not> is_hspace x"
      using True by (auto simp: is_hspace_def dest: set_takeWhileD)
    ultimately have "no_hspace_run (?out @ collapse_newlines (dropWhile (\<lambda>d. d = CHR 0x0A) cs))"
      by (intro nhr_newlines_append)
    moreover have "collapse_newlines (c # cs)
                   = ?out @ collapse_newlines (dropWhile (\<lambda>d. d = CHR 0x0A) cs)"
      using True by (simp only: collapse_newlines.simps Let_def simp_thms if_True)
    ultimately show ?thesis by (simp only:)
  next
    case False
    have "no_hspace_run (collapse_newlines cs)" using 2(2) [OF False] cs by simp
    moreover have "cs = [] \<or> \<not> (is_hspace c \<and> is_hspace (hd (collapse_newlines cs)))"
      using 2(3) hd_collapse_newlines [of cs] by (auto simp: nhr_Cons)
    ultimately show ?thesis using False by (auto simp: nhr_Cons)
  qed
qed

lemma nhr_py_split_from:
  "no_hspace_run (cur @ t) \<Longrightarrow> l \<in> set (py_split_from cur sep t) \<Longrightarrow> no_hspace_run l"
proof (induction cur sep t rule: py_split_from.induct)
  case (1 cur sep)
  then show ?case by simp
next
  case (2 cur sep c cs)
  show ?case
  proof (cases "sep \<noteq> [] \<and> prefix sep (c # cs)")
    case True
    from 2(3) have a: "no_hspace_run cur" and b: "no_hspace_run (c # cs)"
      unfolding nhr_append by blast+
    from True 2(4) have "l = cur \<or> l \<in> set (py_split_from [] sep (drop (length sep) (c # cs)))"
      by simp
    then show ?thesis
    proof
      assume "l = cur" with a show ?thesis by simp
    next
      assume m: "l \<in> set (py_split_from [] sep (drop (length sep) (c # cs)))"
      have "no_hspace_run ([] @ drop (length sep) (c # cs))" using b by (simp add: nhr_drop)
      from 2(1) [OF True this m] show ?thesis .
    qed
  next
    case False
    with 2(4) have m: "l \<in> set (py_split_from (cur @ [c]) sep cs)" by simp
    from 2(3) have "no_hspace_run ((cur @ [c]) @ cs)" by simp
    from 2(2) [OF False this m] show ?thesis .
  qed
qed

lemma nhr_py_join_newline:
  "(\<And>l. l \<in> set ls \<Longrightarrow> no_hspace_run l) \<Longrightarrow> no_hspace_run (py_join [CHR 0x0A] ls)"
proof (induction "[CHR 0x0A]" ls rule: py_join.induct)
  case 1
  then show ?case by simp
next
  case (2 x)
  then show ?case by simp
next
  case (3 x y ys)
  have r: "no_hspace_run (py_join [CHR 0x0A] (y # ys))" using 3 by simp
  have "\<not> is_hspace (CHR 0x0A)" by (simp add: is_hspace_def)
  then have "no_hspace_run (CHR 0x0A # py_join [CHR 0x0A] (y # ys))"
    using r by (simp add: nhr_Cons)
  moreover have "no_hspace_run x" using 3(2) by simp
  ultimately have "no_hspace_run (x @ CHR 0x0A # py_join [CHR 0x0A] (y # ys))"
    unfolding nhr_append [of x] by (simp add: is_hspace_def)
  then show ?case by simp
qed

lemma sanitize_text_no_hspace_run: "no_hspace_run (sanitize_text t)"
proof -
  let ?t3 = "collapse_newlines (collapse_hspace (filter (\<lambda>c. \<not> is_removed_control c) t))"
  have t3: "no_hspace_run ?t3" by (intro nhr_collapse_newlines nhr_collapse_hspace)
  have "\<And>l. l \<in> set (map py_strip (py_split [CHR 0x0A] ?t3)) \<Longrightarrow> no_hspace_run l"
  proof -
    fix l assume "l \<in> set (map py_strip (py_split [CHR 0x0A] ?t3))"
    then obtain m where m: "m \<in> set (py_split_from [] [CHR 0x0A] ?t3)" and l: "l = py_strip m"
      by (auto simp: py_split_def)
    have "no_hspace_run m" using nhr_py_split_from [of "[]" ?t3 m "[CHR 0x0A]"] t3 m by simp
    then show "no_hspace_run l" unfolding l by (rule nhr_py_strip)
  qed
  then have "no_hspace_run (py_join [CHR 0x0A] (map py_strip (py_split [CHR 0x0A] ?t3)))"
    by (rule nhr_py_join_newline)
  then show ?thesis unfolding sanitize_text_def Let_def by (rule nhr_py_strip)
qed

lemma isspace_newline: "py_isspace (CHR 0x0A)"
  by (simp add: py_isspace_def)

lemma py_strip_idem: "py_strip (py_strip x) = py_strip x"
proof (cases "py_strip x = []")
  case True
  then show ?thesis by (simp add: py_strip_Nil)
next
  case False
  with py_strip_ends [OF False] show ?thesis by (intro py_strip_id) simp_all
qed

lemma stripped_ends:
  assumes "py_strip l = l" and "l \<noteq> []"
  shows "\<not> py_isspace (hd l)" and "\<not> py_isspace (last l)"
  using py_strip_ends [of l] assms by simp_all

lemma stripped_rev: "py_strip l = l \<Longrightarrow> py_strip (rev l) = rev l"
proof (cases "l = []")
  case True
  then show ?thesis by (simp add: py_strip_Nil)
next
  case False
  assume "py_strip l = l"
  from stripped_ends [OF this False] False show ?thesis
    by (intro py_strip_id) (simp_all add: hd_rev last_rev)
qed

lemma dropWhile_py_join:
  assumes "\<And>l. l \<in> set ls \<Longrightarrow> py_strip l = l"
  shows "dropWhile py_isspace (py_join [CHR 0x0A] ls)
         = py_join [CHR 0x0A] (dropWhile (\<lambda>l. l = []) ls)"
  using assms
proof (induction "[CHR 0x0A]" ls rule: py_join.induct)
  case 1
  then show ?case by simp
next
  case (2 x)
  show ?case
  proof (cases "x = []")
    case True
    then show ?thesis by simp
  next
    case False
    have "py_strip x = x" using 2 by simp
    from stripped_ends(1) [OF this False] False show ?thesis by (cases x) simp_all
  qed
next
  case (3 x y ys)
  show ?case
  proof (cases "x = []")
    case True
    have "dropWhile py_isspace (py_join [CHR 0x0A] (y # ys))
          = py_join [CHR 0x0A] (dropWhile (\<lambda>l. l = []) (y # ys))"
      using 3 by simp
    with True show ?thesis by (simp add: isspace_newline)
  next
    case False
    have "py_strip x = x" using 3(2) by simp
    from stripped_ends(1) [OF this False] False show ?thesis by (cases x) simp_all
  qed
qed

lemma py_join_snoc:
  "py_join sep (ls @ [x]) = (if ls = [] then x else py_join sep ls @ sep @ x)"
  by (induction sep ls rule: py_join.induct) simp_all

lemma py_join_Cons:
  "py_join sep (x # ls) = (if ls = [] then x else x @ sep @ py_join sep ls)"
  by (cases ls) simp_all

lemma rev_py_join: "rev (py_join [CHR 0x0A] ls) = py_join [CHR 0x0A] (map rev (rev ls))"
proof (induction ls)
  case Nil
  then show ?case by simp
next
  case (Cons x ls)
  show ?case
  proof (cases "ls = []")
    case True
    then show ?thesis by simp
  next
    case False
    then have "rev (py_join [CHR 0x0A] (x # ls))
               = py_join [CHR 0x0A] (map rev (rev ls)) @ [CHR 0x0A] @ rev x"
      by (simp add: py_join_Cons Cons.IH)
    also have "\<dots> = py_join [CHR 0x0A] (map rev (rev ls) @ [rev x])"
      using False by (simp add: py_join_snoc)
    finally show ?thesis by simp
  qed
qed

lemma py_strip_py_join:
  assumes "\<And>l. l \<in> set ls \<Longrightarrow> py_strip l = l"
  shows "\<exists>ls'. py_strip (py_join [CHR 0x0A] ls) = py_join [CHR 0x0A] ls' \<and> set ls' \<subseteq> set ls"
proof -
  let ?A = "dropWhile (\<lambda>l. l = []) ls"
  let ?B = "map rev (rev ?A)"
  let ?C = "dropWhile (\<lambda>l. l = []) ?B"
  let ?D = "map rev (rev ?C)"
  have A: "set ?A \<subseteq> set ls" by (auto dest: set_dropWhileD)
  have 1: "dropWhile py_isspace (py_join [CHR 0x0A] ls) = py_join [CHR 0x0A] ?A"
    using assms by (rule dropWhile_py_join)
  have B: "\<And>l. l \<in> set ?B \<Longrightarrow> py_strip l = l"
    using A assms by (auto intro: stripped_rev)
  have 2: "dropWhile py_isspace (py_join [CHR 0x0A] ?B) = py_join [CHR 0x0A] ?C"
    using B by (rule dropWhile_py_join)
  have "py_strip (py_join [CHR 0x0A] ls) = py_join [CHR 0x0A] ?D"
    by (simp only: py_strip_def 1 rev_py_join 2)
  moreover have "set ?D \<subseteq> set ls"
  proof
    fix l assume "l \<in> set ?D"
    then have "rev l \<in> set ?C" by (auto simp: image_iff)
    then have "rev l \<in> set ?B" by (rule set_dropWhileD)
    then have "l \<in> set ?A" by (auto simp: image_iff)
    with A show "l \<in> set ls" by blast
  qed
  ultimately show ?thesis by blast
qed

lemma py_split_from_line:
  "CHR 0x0A \<notin> set x \<Longrightarrow>
   py_split_from cur [CHR 0x0A] (x @ rest) = py_split_from (cur @ x) [CHR 0x0A] rest"
  by (induction x arbitrary: cur) auto

lemma py_split_from_py_join:
  assumes "\<And>l. l \<in> set ls \<Longrightarrow> CHR 0x0A \<notin> set l" and "ls \<noteq> []"
  shows "py_split_from cur [CHR 0x0A] (py_join [CHR 0x0A] ls) = (cur @ hd ls) # tl ls"
  using assms
proof (induction ls arbitrary: cur)
  case Nil
  then show ?case by simp
next
  case (Cons x ls)
  have x: "CHR 0x0A \<notin> set x" using Cons.prems(1) by simp
  show ?case
  proof (cases "ls = []")
    case True
    with py_split_from_line [OF x, of cur "[]"] show ?thesis by simp
  next
    case False
    have "py_split_from cur [CHR 0x0A] (py_join [CHR 0x0A] (x # ls))
          = py_split_from (cur @ x) [CHR 0x0A] (CHR 0x0A # py_join [CHR 0x0A] ls)"
      using False py_split_from_line [OF x, of cur "CHR 0x0A # py_join [CHR 0x0A] ls"]
      by (simp add: py_join_Cons)
    also have "\<dots> = (cur @ x) # py_split_from [] [CHR 0x0A] (py_join [CHR 0x0A] ls)"
      by simp
    also have "py_split_from [] [CHR 0x0A] (py_join [CHR 0x0A] ls) = ([] @ hd ls) # tl ls"
      using Cons.prems(1) False by (intro Cons.IH) simp_all
    finally show ?thesis using False by simp
  qed
qed

lemma no_newline_py_split_from:
  "CHR 0x0A \<notin> set cur \<Longrightarrow> l \<in> set (py_split_from cur [CHR 0x0A] t) \<Longrightarrow> CHR 0x0A \<notin> set l"
proof (induction cur "[CHR 0x0A]" t rule: py_split_from.induct)
  case (1 cur)
  then show ?case by simp
next
  case (2 cur c cs)
  show ?case
  proof (cases "c = CHR 0x0A")
    case True
    with 2(4) have "l = cur \<or> l \<in> set (py_split_from [] [CHR 0x0A] cs)" by simp
    then show ?thesis
    proof
      assume "l = cur" with 2(3) show ?thesis by simp
    next
      assume m: "l \<in> set (py_split_from [] [CHR 0x0A] cs)"
      have "l \<in> set (py_split_from [] [CHR 0x0A] (drop (length [CHR 0x0A]) (c # cs)))"
        using m by simp
      with 2(1) True show ?thesis by simp
    qed
  next
    case False
    with 2(4) have m: "l \<in> set (py_split_from (cur @ [c]) [CHR 0x0A] cs)" by simp
    from False 2(3) have "CHR 0x0A \<notin> set (cur @ [c])" by simp
    with 2(2) False m show ?thesis by simp
  qed
qed

lemma sanitize_text_lines_trimmed:
  assumes "l \<in> set (py_split [CHR 0x0A] (sanitize_text t))"
  shows "py_strip l = l"
proof -
  let ?t3 = "collapse_newlines (collapse_hspace (filter (\<lambda>c. \<not> is_removed_control c) t))"
  let ?L = "map py_strip (py_split [CHR 0x0A] ?t3)"
  have stripped: "\<And>m. m \<in> set ?L \<Longrightarrow> py_strip m = m"
    by (auto simp: py_strip_idem)
  have nonl: "\<And>m. m \<in> set ?L \<Longrightarrow> CHR 0x0A \<notin> set m"
  proof -
    fix m assume "m \<in> set ?L"
    then obtain u where u: "u \<in> set (py_split_from [] [CHR 0x0A] ?t3)" and m: "m = py_strip u"
      by (auto simp: py_split_def)
    have "CHR 0x0A \<notin> set u" using no_newline_py_split_from [of "[]" u ?t3] u by simp
    then show "CHR 0x0A \<notin> set m" unfolding m using set_py_strip [of u] by blast
  qed
  from py_strip_py_join [of ?L] stripped
  obtain ls' where out: "sanitize_text t = py_join [CHR 0x0A] ls'" and sub: "set ls' \<subseteq> set ?L"
    unfolding sanitize_text_def Let_def by blast
  show ?thesis
  proof (cases "ls' = []")
    case True
    with assms out show ?thesis by (simp add: py_split_def py_strip_Nil)
  next
    case False
    have nl': "\<And>m. m \<in> set ls' \<Longrightarrow> CHR 0x0A \<notin> set m"
      using nonl sub by blast
    have "py_split_from [] [CHR 0x0A] (py_join [CHR 0x0A] ls') = ([] @ hd ls') # tl ls'"
      using nl' False by (rule py_split_from_py_join)
    then have "py_split [CHR 0x0A] (sanitize_text t) = ls'"
      unfolding out py_split_def using False by simp
    with assms have "l \<in> set ls'" by (simp only:)
    with sub have "l \<in> set ?L" by (rule subsetD)
    then show ?thesis by (rule stripped)
  qed
qed

text \<open>
  Counterexample to claim C7 as stated. The text made of \<open>a\<close>, a carriage return and
  \<open>b\<close> is returned unchanged: the carriage return (code 13), a control character that
  is neither newline nor tab, is not in the removed class and survives inside a line.
  The same holds for the control character of code 128.
\<close>

theorem C7_sanitize_text_keeps_control_characters:
  "sanitize_text [CHR ''a'', CHR 0x0D, CHR ''b''] = [CHR ''a'', CHR 0x0D, CHR ''b'']
   \<and> sanitize_text [CHR ''a'', CHR 0x80, CHR ''b''] = [CHR ''a'', CHR 0x80, CHR ''b'']"
  by (simp add: sanitize_text_def Let_def is_removed_control_def is_hspace_def py_split_def
      py_strip_def py_isspace_def)

text \<open>
  The sanitizer on the text made of \<open>a\<close>, newline, space, newline, space, newline,
  \<open>b\<close>: the output is \<open>a\<close>, three newlines, \<open>b\<close>.
\<close>

lemma sanitize_text_three_newlines:
  "sanitize_text [CHR ''a'', CHR 0x0A, CHR '' '', CHR 0x0A, CHR '' '', CHR 0x0A, CHR ''b'']
     = [CHR ''a'', CHR 0x0A, CHR 0x0A, CHR 0x0A, CHR ''b'']"
  by (simp add: sanitize_text_def Let_def is_removed_control_def is_hspace_def py_split_def
      py_strip_def py_isspace_def)

text \<open>
  Claim C7, amended. For every input string: the output contains no character of the
  removed class (codes 0 to 8, 11, 12, 14 to 31 and 127); no two adjacent characters of
  the output are both a space or a tab; and every line of the output is trimmed of
  leading and trailing whitespace.
\<close>

theorem C7_sanitize_text_normalised:
  "(\<forall>c \<in> set (sanitize_text t). \<not> is_removed_control c)
   \<and> no_hspace_run (sanitize_text t)
   \<and> (\<forall>l \<in> set (py_split [CHR 0x0A] (sanitize_text t)). py_strip l = l)"
  using sanitize_text_no_removed_control [of _ t] sanitize_text_no_hspace_run [of t]
    sanitize_text_lines_trimmed [of _ t]
  by blast

lemma sanitize_example:
  "sanitize_text [CHR 0x01, CHR '' '', CHR 0x09, CHR ''a'', CHR '' '', CHR '' '', CHR ''b'',
                  CHR '' '', CHR 0x0A, CHR 0x0A, CHR 0x0A, CHR 0x0A, CHR '' '', CHR ''c'', CHR '' '']
   = [CHR ''a'', CHR '' '', CHR ''b'', CHR 0x0A, CHR 0x0A, CHR ''c'']"
  by (simp add: sanitize_text_def Let_def is_removed_control_def is_hspace_def py_split_def
      py_strip_def py_isspace_def)

theorem C7_sanitize_text_normalised_witness:
  "sanitize_text [CHR 0x01, CHR '' '', CHR 0x09, CHR ''a'', CHR '' '', CHR '' '', CHR ''b'',
                  CHR '' '', CHR 0x0A, CHR 0x0A, CHR 0x0A, CHR 0x0A, CHR '' '', CHR ''c'', CHR '' '']
     = [CHR ''a'', CHR '' '', CHR ''b'', CHR 0x0A, CHR 0x0A, CHR ''c'']
   \<and> list_all (\<lambda>c. \<not> is_removed_control c)
        [CHR ''a'', CHR '' '', CHR ''b'', CHR 0x0A, CHR 0x0A, CHR ''c'']
   \<and> no_hspace_run [CHR ''a'', CHR '' '', CHR ''b'', CHR 0x0A, CHR 0x0A, CHR ''c'']
   \<and> list_all (\<lambda>l. py_strip l = l)
        (py_split [CHR 0x0A] [CHR ''a'', CHR '' '', CHR ''b'', CHR 0x0A, CHR 0x0A, CHR ''c''])"
  using C7_sanitize_text_normalised
    [of "[CHR 0x01, CHR '' '', CHR 0x09, CHR ''a'', CHR '' '', CHR '' '', CHR ''b'',
          CHR '' '', CHR 0x0A, CHR 0x0A, CHR 0x0A, CHR 0x0A, CHR '' '', CHR ''c'', CHR '' '']"]
  unfolding sanitize_example list_all_iff by blast

subsection \<open>Chunk ids\<close>

lemma digit_inj:
  assumes "a < 10" "b < 10" "''0123456789'' ! a = ''0123456789'' ! b"
  shows "a = b"
proof -
  have "distinct ''0123456789''" by simp
  moreover have "a < length ''0123456789''" "b < length ''0123456789''" using assms by simp_all
  ultimately show ?thesis using assms(3) by (simp only: nth_eq_iff_index_eq)
qed

lemma str_nat_small: "n < 10 \<Longrightarrow> str_nat n = [''0123456789'' ! n]"
  by (simp add: str_nat.simps [of n])

lemma str_nat_large:
  "\<not> n < 10 \<Longrightarrow> str_nat n = str_nat (n div 10) @ [''0123456789'' ! (n mod 10)]"
  by (simp add: str_nat.simps [of n])

lemma str_nat_nonempty: "str_nat n \<noteq> []"
  by (cases "n < 10") (simp_all add: str_nat_small str_nat_large)

lemma str_nat_inj: "str_nat i = str_nat j \<Longrightarrow> i = j"
proof (induction i arbitrary: j rule: str_nat.induct)
  case (1 i)
  show ?case
  proof (cases "i < 10")
    case True
    show ?thesis
    proof (cases "j < 10")
      case j: True
      with True 1(2) show ?thesis by (auto simp: str_nat_small intro: digit_inj)
    next
      case j: False
      with True 1(2) str_nat_nonempty [of "j div 10"] show ?thesis
        by (simp add: str_nat_small str_nat_large)
    qed
  next
    case False
    show ?thesis
    proof (cases "j < 10")
      case j: True
      with False 1(2) str_nat_nonempty [of "i div 10"] show ?thesis
        by (simp add: str_nat_small str_nat_large)
    next
      case j: False
      from False j 1(2) have e: "str_nat (i div 10) = str_nat (j div 10)"
        and d: "''0123456789'' ! (i mod 10) = ''0123456789'' ! (j mod 10)"
        by (simp_all add: str_nat_large)
      from 1(1) [OF False e] have "i div 10 = j div 10" .
      moreover have "i mod 10 = j mod 10" using d by (intro digit_inj) simp_all
      ultimately show ?thesis by (metis div_mult_mod_eq)
    qed
  qed
qed

lemma chunk_id_same_iff:
  "generate_chunk_id h p i = generate_chunk_id h p j \<longleftrightarrow>
   h (p @ ''_'' @ str_nat i) = h (p @ ''_'' @ str_nat j)"
  by (simp add: generate_chunk_id_def)

lemma chunk_id_key_inj:
  "p @ ''_'' @ str_nat i = p @ ''_'' @ str_nat j \<longleftrightarrow> i = j"
  by (auto dest: str_nat_inj)

lemma chunk_ids_of_records:
  "map fst (chunk_records h p base n i chunks)
   = map (generate_chunk_id h p) [i ..< i + length chunks]"
proof (induction chunks arbitrary: i)
  case Nil
  then show ?case by simp
next
  case (Cons c cs)
  have "[i ..< i + length (c # cs)] = i # [Suc i ..< Suc i + length cs]"
    using upt_shift [of i "length cs"] by simp
  then show ?case by (simp add: Cons del: upt_Suc)
qed

lemma ingest_document_ids:
  assumes ok: "ingest_document h embedder service store w sent doc
                 (Some (content, doc_metadata)) now metadata_override ns
               = (Inr (Ingested f k n), w', sent')"
  shows "map fst (concat (map fst (drop (length sent) sent')))
         = map (generate_chunk_id h (source doc))
             [0 ..< length (SemanticChunker_chunk 1500 500 content)]"
proof -
  let ?chunks = "SemanticChunker_chunk 1500 500 content"
  let ?base = "base_metadata doc doc_metadata now metadata_override"
  let ?recs = "chunk_records h (source doc) ?base (length ?chunks) 0 ?chunks"
  let ?embs = "map stored_vector (call_outcomes embedder w ?chunks)"
  have eb: "embed_batch embedder w ?chunks 32 = (Inr ?embs, state_after embedder w ?chunks)"
    by (rule embed_batch_eq) simp
  from ok have ne: "?chunks \<noteq> []"
    by (auto simp: ingest_document_def split: if_splits)
  from ok ne have up: "upsert_batch service store sent ?embs (map fst ?recs) (map snd ?recs) 100 ns
                       = (Inr n, sent')"
    by (auto simp: ingest_document_def eb split: prod.splits sum.splits)
  have le: "length ?embs = length ?chunks" by (simp add: length_call_outcomes)
  have ix: "index store \<noteq> None"
    using up ne le by (intro upsert_batch_success_index [OF up]) auto
  from upsert_batch_sent [OF _ ix _ _ up] le
  obtain calls where s: "sent' = sent @ calls"
    and c: "concat (map fst calls) = zip (map fst ?recs) (zip ?embs (map snd ?recs))"
    by auto
  have "map fst (concat (map fst (drop (length sent) sent'))) = map fst ?recs"
    unfolding s using le by (simp add: c)
  also have "\<dots> = map (generate_chunk_id h (source doc)) [0 ..< 0 + length ?chunks]"
    by (rule chunk_ids_of_records)
  finally show ?thesis by simp
qed

lemma ingest_document_count:
  assumes "ingest_document h embedder service store w sent doc
             (Some (content, doc_metadata)) now metadata_override ns
           = (Inr (Ingested f k n), w', sent')"
  shows "k = length (SemanticChunker_chunk 1500 500 content)"
  using assms
  by (auto simp: ingest_document_def split: if_splits prod.splits sum.splits)

lemma distinct_chunk_ids:
  assumes "inj_on h ((\<lambda>i. p @ ''_'' @ str_nat i) ` {..< k})"
  shows "distinct (map (generate_chunk_id h p) [0 ..< k])"
proof -
  have "inj_on (\<lambda>i. p @ ''_'' @ str_nat i) {..< k}"
    by (rule inj_onI) (auto dest: str_nat_inj)
  then have "inj_on (h \<circ> (\<lambda>i. p @ ''_'' @ str_nat i)) {..< k}"
    using assms by (rule comp_inj_on)
  moreover have "h \<circ> (\<lambda>i. p @ ''_'' @ str_nat i) = generate_chunk_id h p"
    by (rule ext) (simp add: generate_chunk_id_def)
  ultimately have "inj_on (generate_chunk_id h p) (set [0 ..< k])"
    by (simp add: lessThan_atLeast0)
  then show ?thesis by (simp add: distinct_map)
qed

text \<open>
  Claim C4. The id of a chunk is the digest of the key \<open>path_index\<close>, a function of the
  path and the index alone. The digest is the MD5 function of the standard library, a
  parameter here; the one thing assumed of it is that it does not collide on the keys of
  the document, \<open>path_0\<close>, ..., \<open>path_(k-1)\<close>. Then for two successful ingestions of the
  same path and the same content, whatever the time stamps, the metadata, the overrides,
  the namespaces and the states of the services are: the ids sent by the first run are
  the ids generated for the indices \<open>0, ..., k - 1\<close>, in order; the second run sends the
  same list of ids; and the ids of one run are pairwise distinct.
\<close>

theorem C4_chunk_ids_deterministic:
  assumes run1: "ingest_document h e1 s1 st1 w1 sent1 doc1 (Some (content, dm1)) now1 ov1 ns1
           = (Inr (Ingested f1 k1 n1), w1', sent1')"
    and run2: "ingest_document h e2 s2 st2 w2 sent2 doc2 (Some (content, dm2)) now2 ov2 ns2
           = (Inr (Ingested f2 k2 n2), w2', sent2')"
    and same: "source doc1 = source doc2"
    and no_collision: "inj_on h ((\<lambda>i. source doc1 @ ''_'' @ str_nat i) ` {..< k1})"
  shows "map fst (concat (map fst (drop (length sent1) sent1')))
           = map (generate_chunk_id h (source doc1)) [0 ..< k1]
     \<and> map fst (concat (map fst (drop (length sent2) sent2')))
           = map fst (concat (map fst (drop (length sent1) sent1')))
     \<and> distinct (map fst (concat (map fst (drop (length sent1) sent1'))))"
proof -
  have k1: "k1 = length (SemanticChunker_chunk 1500 500 content)"
    using run1 by (rule ingest_document_count)
  have ids1: "map fst (concat (map fst (drop (length sent1) sent1')))
              = map (generate_chunk_id h (source doc1)) [0 ..< k1]"
    unfolding k1 using run1 by (rule ingest_document_ids)
  have ids2: "map fst (concat (map fst (drop (length sent2) sent2')))
              = map (generate_chunk_id h (source doc1)) [0 ..< k1]"
    unfolding k1 same using run2 by (rule ingest_document_ids)
  have "distinct (map (generate_chunk_id h (source doc1)) [0 ..< k1])"
    using no_collision by (rule distinct_chunk_ids)
  with ids1 ids2 show ?thesis by (simp only: simp_thms)
qed

lemma str_nat_digits: "str_nat 0 = ''0''" "str_nat (Suc 0) = ''1''"
  by (simp_all add: str_nat_small)

theorem C4_chunk_ids_deterministic_witness:
  "map fst (concat (map fst (snd (snd
      (ingest_document (\<lambda>s. s) (\<lambda>w t. (Inr [0], w)) (\<lambda>sent r. Inr (int (length (fst r))))
        \<lparr>index_name = ''kb'', index = Some ''kb''\<rparr> () []
        \<lparr>source = ''docs/a.txt'', path_name = ''a.txt'', path_suffix = ''.txt'', st_size = 1601\<rparr>
        (Some (two_sentence_text, Map.empty)) ''2025-01-01T00:00:00'' None ''kb'')))))
     = [''docs/a.txt_0'', ''docs/a.txt_1'']
   \<and> map fst (concat (map fst (snd (snd
      (ingest_document (\<lambda>s. s) (\<lambda>w t. (Inr [0], w)) (\<lambda>sent r. Inr (int (length (fst r))))
        \<lparr>index_name = ''kb'', index = Some ''kb''\<rparr> () []
        \<lparr>source = ''docs/a.txt'', path_name = ''a.txt'', path_suffix = ''.txt'', st_size = 1601\<rparr>
        (Some (two_sentence_text, [''title'' \<mapsto> VStr ''Two sentences'']))
        ''2025-06-30T12:00:00'' (Some [''sector'' \<mapsto> VStr ''energy'']) ''archive'')))))
     = [''docs/a.txt_0'', ''docs/a.txt_1'']"
proof -
  let ?doc = "\<lparr>source = ''docs/a.txt'', path_name = ''a.txt'', path_suffix = ''.txt'',
               st_size = 1601\<rparr>"
  let ?dm = "[''title'' \<mapsto> VStr ''Two sentences''] :: pydict"
  let ?ov = "Some [''sector'' \<mapsto> VStr ''energy''] :: pydict option"
  let ?X = "ingest_document (\<lambda>s. s) (\<lambda>w t. (Inr [0], w)) (\<lambda>sent r. Inr (int (length (fst r))))
        \<lparr>index_name = ''kb'', index = Some ''kb''\<rparr> () [] ?doc
        (Some (two_sentence_text, Map.empty)) ''2025-01-01T00:00:00'' None ''kb''"
  let ?Y = "ingest_document (\<lambda>s. s) (\<lambda>w t. (Inr [0], w)) (\<lambda>sent r. Inr (int (length (fst r))))
        \<lparr>index_name = ''kb'', index = Some ''kb''\<rparr> () [] ?doc
        (Some (two_sentence_text, ?dm)) ''2025-06-30T12:00:00'' ?ov ''archive''"
  have "fst ?X = Inr (Ingested ''docs/a.txt'' 2 2)" by (rule ingest_two_sentences)
  then have r1: "?X = (Inr (Ingested ''docs/a.txt'' 2 2), fst (snd ?X), snd (snd ?X))"
    by (simp add: prod_eq_iff)
  have "fst ?Y = Inr (Ingested ''docs/a.txt'' 2 2)" by (rule ingest_two_sentences)
  then have r2: "?Y = (Inr (Ingested ''docs/a.txt'' 2 2), fst (snd ?Y), snd (snd ?Y))"
    by (simp add: prod_eq_iff)
  have inj: "inj_on (\<lambda>s :: string. s) ((\<lambda>i. source ?doc @ ''_'' @ str_nat i) ` {..< 2})"
    by (rule inj_on_id2)
  have ids: "map (generate_chunk_id (\<lambda>s. s) (source ?doc)) [0 ..< 2]
             = [''docs/a.txt_0'', ''docs/a.txt_1'']"
    by (simp add: numeral_2_eq_2 generate_chunk_id_def str_nat_digits)
  from C4_chunk_ids_deterministic [OF r1 r2 refl inj]
  have a: "map fst (concat (map fst (drop (length ([] :: (vector, pydict) request list))
              (snd (snd ?X))))) = map (generate_chunk_id (\<lambda>s. s) (source ?doc)) [0 ..< 2]"
    and b: "map fst (concat (map fst (drop (length ([] :: (vector, pydict) request list))
              (snd (snd ?Y)))))
            = map fst (concat (map fst (drop (length ([] :: (vector, pydict) request list))
              (snd (snd ?X)))))"
    by blast+
  from a have a': "map fst (concat (map fst (snd (snd ?X)))) = [''docs/a.txt_0'', ''docs/a.txt_1'']"
    unfolding ids by simp
  from b have b': "map fst (concat (map fst (snd (snd ?Y)))) = map fst (concat (map fst (snd (snd ?X))))"
    by simp
  show ?thesis using a' b' by (simp only: simp_thms)
qed

end
